theory Spec2Isabelle
  imports Complex_Main "HOL-Library.Log_Nat"
begin

section \<open>The pixel canvas component: arrays, store and state\<close>

text \<open>
  The component \<^verbatim>\<open>PixelCanvas\<close> keeps the picture as a JavaScript array of row arrays of
  CSS colour strings. Arrays are objects: two variables may hold the same array, and
  \<^verbatim>\<open>newPixels[r][c] = v\<close> writes into a row object in place. The model therefore keeps
  every array in an explicit store and lets the state hold addresses.

  A row array is a list of slots; a slot that was never written (a hole left by a write
  past the end of the array) reads as \<^verbatim>\<open>undefined\<close> and is \<open>None\<close> here.
\<close>

type_synonym addr = nat
type_synonym cells = "string option list"

record store =
  rowHeap :: "cells list"
  gridHeap :: "addr list list"

datatype error = TypeError

text \<open>\<^verbatim>\<open>row[i] = v\<close>: JavaScript extends the array when \<open>i\<close> is past its end.\<close>

definition js_set :: "cells \<Rightarrow> nat \<Rightarrow> string \<Rightarrow> cells" where
  "js_set xs i v =
     (if i < length xs then xs[i := Some v]
      else xs @ replicate (i - length xs) None @ [Some v])"

text \<open>The rows of the grid at an address, read out of the store (\<^verbatim>\<open>pixels[r][c]\<close> for all r, c).\<close>

definition gridValue :: "store \<Rightarrow> addr \<Rightarrow> cells list" where
  "gridValue S g = map (\<lambda>a. rowHeap S ! a) (gridHeap S ! g)"

text \<open>
  \<^verbatim>\<open>g.map((row) => [...row])\<close>: one new row array for each row of \<open>g\<close>, holding the same
  colours, and one new outer array holding the new rows. The result is the address of the
  new outer array.
\<close>

definition copyGrid :: "store \<Rightarrow> addr \<Rightarrow> addr \<times> store" where
  "copyGrid S g =
     (let rs = gridHeap S ! g; n0 = length (rowHeap S)
      in (length (gridHeap S),
          S\<lparr>rowHeap := rowHeap S @ map (\<lambda>a. rowHeap S ! a) rs,
            gridHeap := gridHeap S @ [[n0 ..< n0 + length rs]]\<rparr>))"

text \<open>
  \<^verbatim>\<open>newPixels[r][c] = v\<close>: when the outer array has no row \<open>r\<close>, \<^verbatim>\<open>newPixels[r]\<close> is
  \<^verbatim>\<open>undefined\<close> and the assignment throws a TypeError.
\<close>

definition writeCell :: "store \<Rightarrow> addr \<Rightarrow> nat \<Rightarrow> nat \<Rightarrow> string \<Rightarrow> error + store" where
  "writeCell S g r c v =
     (if r < length (gridHeap S ! g)
      then Inr (S\<lparr>rowHeap := (rowHeap S)[gridHeap S ! g ! r :=
                     js_set (rowHeap S ! (gridHeap S ! g ! r)) c v]\<rparr>)
      else Inl TypeError)"

subsection \<open>What the component reads from its surroundings\<close>

text \<open>
  \<open>env\<close> is what stays fixed while the component is mounted: the resolution, and the two
  imported helpers \<^verbatim>\<open>isEdge\<close> and \<^verbatim>\<open>hsvToCss\<close>, whose files are missing from the code
  verified here and are therefore parameters. \<open>brush\<close> is what the tool contexts hold at the time of
  an event. The type \<open>'c\<close> is the colour value handed to \<^verbatim>\<open>hsvToCss\<close>.
\<close>

record 'c env =
  logicWidth :: nat
  logicHeight :: nat
  isEdge :: "nat \<Rightarrow> nat \<Rightarrow> nat \<Rightarrow> bool"
  hsvToCss :: "'c \<Rightarrow> string"

record 'c brush =
  penSize :: nat
  selectedColor :: 'c
  selectedTool :: string
  isGrab :: bool

record state =
  heap :: store
  pixels :: addr
  history :: "addr list"
  historyStep :: nat
  isDrawing :: bool
  hoverPos :: "(int \<times> int) option"
  canvas :: "(string \<times> int \<times> int) list"

text \<open>
  \<open>canvas\<close> is the list of cell rectangles filled on the foreground canvas, each with its
  fill style: \<open>(style, r, c)\<close> stands for
  \<^verbatim>\<open>ctx.fillRect(c * pixelSize, r * pixelSize, pixelSize, pixelSize)\<close>.
\<close>

definition currentGrid :: "state \<Rightarrow> cells list" where
  "currentGrid s = gridValue (heap s) (pixels s)"

definition historyGrid :: "state \<Rightarrow> nat \<Rightarrow> cells list" where
  "historyGrid s i = gridValue (heap s) (history s ! i)"

subsection \<open>The brush\<close>

text \<open>
  The two nested loops of \<^verbatim>\<open>drawPixel\<close> and \<^verbatim>\<open>drawGhostBrush\<close>, with their
  \<^verbatim>\<open>continue\<close>: the offsets that reach the body, in the order the loops visit them.
\<close>

definition brushOffsets :: "'c env \<Rightarrow> 'c brush \<Rightarrow> (nat \<times> nat) list" where
  "brushOffsets e b =
     [(dy, dx). dy \<leftarrow> [0 ..< penSize b], dx \<leftarrow> [0 ..< penSize b],
                \<not> (2 < penSize b \<and> isEdge e (penSize b) dy dx)]"

definition footprint :: "'c env \<Rightarrow> 'c brush \<Rightarrow> int \<Rightarrow> int \<Rightarrow> (int \<times> int) list" where
  "footprint e b row col = map (\<lambda>(dy, dx). (row + int dy, col + int dx)) (brushOffsets e b)"

definition inBounds :: "'c env \<Rightarrow> int \<Rightarrow> int \<Rightarrow> bool" where
  "inBounds e r c = (0 \<le> r \<and> r < int (logicHeight e) \<and> 0 \<le> c \<and> c < int (logicWidth e))"

definition fillColor :: "'c env \<Rightarrow> 'c brush \<Rightarrow> string" where
  "fillColor e b =
     (if selectedTool b = ''eraser'' then ''transparent'' else hsvToCss e (selectedColor b))"

text \<open>The body of the loops, over the cells of the footprint; a throw ends the loops.\<close>

fun stampCells :: "'c env \<Rightarrow> string \<Rightarrow> addr \<Rightarrow> (int \<times> int) list \<Rightarrow> store \<Rightarrow> error + store" where
  "stampCells e v g [] S = Inr S"
| "stampCells e v g ((r, c) # rest) S =
     (if inBounds e r c
      then (case writeCell S g (nat r) (nat c) v of
              Inl x \<Rightarrow> Inl x
            | Inr S' \<Rightarrow> stampCells e v g rest S')
      else stampCells e v g rest S)"

definition drawPixel :: "'c env \<Rightarrow> 'c brush \<Rightarrow> int \<Rightarrow> int \<Rightarrow> state \<Rightarrow> error + state" where
  "drawPixel e b row col s =
     (if isGrab b then Inr s
      else (case copyGrid (heap s) (pixels s) of
              (newPixels, S) \<Rightarrow>
                (case stampCells e (fillColor e b) newPixels (footprint e b row col) S of
                   Inl x \<Rightarrow> Inl x
                 | Inr S' \<Rightarrow> Inr (s\<lparr>heap := S', pixels := newPixels\<rparr>))))"

definition drawGhostBrush :: "'c env \<Rightarrow> 'c brush \<Rightarrow> state \<Rightarrow> state" where
  "drawGhostBrush e b s =
     (case hoverPos s of
        None \<Rightarrow> s
      | Some (row, col) \<Rightarrow>
          if \<not> isDrawing s \<and> \<not> isGrab b
          then s\<lparr>canvas := canvas s @
                   map (\<lambda>(r, c). (fillColor e b, r, c))
                     (filter (\<lambda>(r, c). inBounds e r c) (footprint e b row col))\<rparr>
          else s)"

subsection \<open>The coordinate mapper\<close>















subsection \<open>Handlers and effects\<close>

datatype event =
    MouseDown int int
  | MouseMove int int
  | MouseUp
  | MouseLeave
  | KeyDown bool string

text \<open>
  A mouse event carries the cell that \<^verbatim>\<open>getCell\<close> computes for it; \<open>KeyDown ctrl key\<close>
  carries \<^verbatim>\<open>e.ctrlKey\<close> and \<^verbatim>\<open>e.key\<close>. Events are handled one at a time, each after the
  updates of the one before have been rendered, so a handler reads the current state.
\<close>

definition handleMouseDown :: "'c env \<Rightarrow> 'c brush \<Rightarrow> int \<Rightarrow> int \<Rightarrow> state \<Rightarrow> error + state" where
  "handleMouseDown e b row col s =
     (case drawPixel e b row col s of
        Inl x \<Rightarrow> Inl x
      | Inr s' \<Rightarrow> Inr (s'\<lparr>isDrawing := True\<rparr>))"

definition handleMouseMove :: "'c env \<Rightarrow> 'c brush \<Rightarrow> int \<Rightarrow> int \<Rightarrow> state \<Rightarrow> error + state" where
  "handleMouseMove e b row col s =
     (if isDrawing s then drawPixel e b row col (s\<lparr>hoverPos := Some (row, col)\<rparr>)
      else Inr (s\<lparr>hoverPos := Some (row, col)\<rparr>))"

definition handleMouseUp :: "state \<Rightarrow> state" where
  "handleMouseUp s =
     (case copyGrid (heap s) (pixels s) of
        (newPixels, S) \<Rightarrow>
          s\<lparr>heap := S, isDrawing := False,
            history := take (historyStep s + 1) (history s) @ [newPixels],
            historyStep := historyStep s + 1\<rparr>)"

definition handleMouseLeave :: "state \<Rightarrow> state" where
  "handleMouseLeave s = s\<lparr>hoverPos := None\<rparr>"

definition toLowerChar :: "char \<Rightarrow> char" where
  "toLowerChar ch =
     (if 65 \<le> (of_char ch :: nat) \<and> (of_char ch :: nat) \<le> 90
      then char_of ((of_char ch :: nat) + 32) else ch)"

definition handleKeyDown :: "bool \<Rightarrow> string \<Rightarrow> state \<Rightarrow> state" where
  "handleKeyDown ctrlKey key s =
     (if ctrlKey \<and> map toLowerChar key = ''z''
      then s\<lparr>historyStep := nat (max 0 (int (historyStep s) - 1))\<rparr>
      else s)"

text \<open>
  The effect with dependency \<^verbatim>\<open>[historyStep]\<close>: after a render in which \<open>historyStep\<close>
  differs from the render before, the picture is replaced by a copy of the history entry
  at the cursor, when there is one.
\<close>

definition restoreFromHistory :: "state \<Rightarrow> state" where
  "restoreFromHistory s =
     (if historyStep s < length (history s)
      then (case copyGrid (heap s) (history s ! historyStep s) of
              (g, S) \<Rightarrow> s\<lparr>heap := S, pixels := g\<rparr>)
      else s)"

definition afterRender :: "state \<Rightarrow> state \<Rightarrow> state" where
  "afterRender old new =
     (if historyStep new \<noteq> historyStep old then restoreFromHistory new else new)"

definition handle :: "'c env \<Rightarrow> 'c brush \<Rightarrow> state \<Rightarrow> event \<Rightarrow> error + state" where
  "handle e b s ev =
     (case ev of
        MouseDown row col \<Rightarrow> handleMouseDown e b row col s
      | MouseMove row col \<Rightarrow> handleMouseMove e b row col s
      | MouseUp \<Rightarrow> Inr (handleMouseUp s)
      | MouseLeave \<Rightarrow> Inr (handleMouseLeave s)
      | KeyDown ctrlKey key \<Rightarrow> Inr (handleKeyDown ctrlKey key s))"

definition step :: "'c env \<Rightarrow> 'c brush \<Rightarrow> state \<Rightarrow> event \<Rightarrow> error + state" where
  "step e b s ev =
     (case handle e b s ev of
        Inl x \<Rightarrow> Inl x
      | Inr s' \<Rightarrow> Inr (afterRender s s'))"

fun run :: "'c env \<Rightarrow> state \<Rightarrow> ('c brush \<times> event) list \<Rightarrow> error + state" where
  "run e s [] = Inr s"
| "run e s ((b, ev) # rest) =
     (case step e b s ev of
        Inl x \<Rightarrow> Inl x
      | Inr s' \<Rightarrow> run e s' rest)"

text \<open>
  The first render: a fresh transparent grid, an empty history. The mount effect then
  seeds the history with a copy of the grid. The \<^verbatim>\<open>[historyStep]\<close> effect also runs at
  mount, on the values of the first render, where the history is still empty.
\<close>

definition initialState :: "'c env \<Rightarrow> state" where
  "initialState e =
     \<lparr>heap = \<lparr>rowHeap = replicate (logicHeight e) (replicate (logicWidth e) (Some ''transparent'')),
              gridHeap = [[0 ..< logicHeight e]]\<rparr>,
      pixels = 0, history = [], historyStep = 0,
      isDrawing = False, hoverPos = None, canvas = []\<rparr>"

definition init :: "'c env \<Rightarrow> state" where
  "init e =
     (let s = initialState e
      in (case copyGrid (heap s) (pixels s) of
            (initial, S) \<Rightarrow> s\<lparr>heap := S, history := [initial], historyStep := 0\<rparr>))"

subsection \<open>Event sequences used in the statements\<close>

text \<open>Ctrl+Z, the key combination that \<^verbatim>\<open>handleKeyDown\<close> reacts to.\<close>

definition undoKey :: event where
  "undoKey = KeyDown True ''z''"

text \<open>A stroke: pointer-down at a cell, pointer-moves over cells, pointer-up.\<close>

definition stroke :: "'c brush \<Rightarrow> int \<Rightarrow> int \<Rightarrow> (int \<times> int) list \<Rightarrow> ('c brush \<times> event) list" where
  "stroke b row col ms =
     (b, MouseDown row col) # map (\<lambda>(r, c). (b, MouseMove r c)) ms @ [(b, MouseUp)]"

definition undos :: "'c brush \<Rightarrow> nat \<Rightarrow> ('c brush \<times> event) list" where
  "undos b k = replicate k (b, undoKey)"

text \<open>What a run shows at its end, and what its history holds at the cursor.\<close>

definition cursorGrid :: "state \<Rightarrow> cells list" where
  "cursorGrid s = historyGrid s (historyStep s)"

definition shownAfter :: "error + state \<Rightarrow> error + cells list" where
  "shownAfter res = map_sum id currentGrid res"

definition atCursorAfter :: "error + state \<Rightarrow> error + cells list" where
  "atCursorAfter res = map_sum id cursorGrid res"

subsection \<open>Small configurations for the worked examples\<close>

definition plainEnv :: "nat \<Rightarrow> nat \<Rightarrow> unit env" where
  "plainEnv h w =
     \<lparr>logicWidth = w, logicHeight = h, isEdge = (\<lambda>n dy dx. False), hsvToCss = (\<lambda>u. ''red'')\<rparr>"

definition pen :: "nat \<Rightarrow> unit brush" where
  "pen n = \<lparr>penSize = n, selectedColor = (), selectedTool = ''pen'', isGrab = False\<rparr>"

subsection \<open>The corner test of the brush\<close>


section \<open>Well-formed stores and consistent states\<close>

text \<open>
  Every row array in the store belongs to exactly one outer array (the outer arrays, one
  after the other, list the row addresses in allocation order), and every array has the
  size the resolution gives it.
\<close>

definition wfStore :: "'c env \<Rightarrow> store \<Rightarrow> bool" where
  "wfStore e S =
     (concat (gridHeap S) = [0 ..< length (rowHeap S)] \<and>
      list_all (\<lambda>g. length g = logicHeight e) (gridHeap S) \<and>
      list_all (\<lambda>r. length r = logicWidth e) (rowHeap S))"

text \<open>\<open>S'\<close> holds every array of \<open>S\<close>, at the same address and with the same content.\<close>

definition extends :: "store \<Rightarrow> store \<Rightarrow> bool" where
  "extends S S' =
     (take (length (rowHeap S)) (rowHeap S') = rowHeap S \<and>
      take (length (gridHeap S)) (gridHeap S') = gridHeap S)"

text \<open>
  The live grid's outer array is none of the history's, and none of its row arrays is a
  row array of a history entry.
\<close>

definition noAlias :: "state \<Rightarrow> bool" where
  "noAlias s =
     (pixels s \<notin> set (history s) \<and>
      list_all (\<lambda>h. set (gridHeap (heap s) ! pixels s) \<inter> set (gridHeap (heap s) ! h) = {})
        (history s))"

text \<open>
  The invariant of the component: a well-formed store, a grid and history entries that
  are arrays of the store, history entries that are pairwise different arrays and none of
  them the grid, and a cursor inside the history.
\<close>

definition consistent :: "'c env \<Rightarrow> state \<Rightarrow> bool" where
  "consistent e s =
     (wfStore e (heap s) \<and>
      pixels s < length (gridHeap (heap s)) \<and>
      list_all (\<lambda>g. g < length (gridHeap (heap s))) (history s) \<and>
      distinct (history s) \<and>
      pixels s \<notin> set (history s) \<and>
      historyStep s < length (history s))"

text \<open>The picture shown is the history entry at the cursor.\<close>

definition synced :: "state \<Rightarrow> bool" where
  "synced s = (currentGrid s = historyGrid s (historyStep s))"

section \<open>Well-formed stores\<close>

lemma distinct_concat_elem: "distinct (concat xss) \<Longrightarrow> xs \<in> set xss \<Longrightarrow> distinct xs"
  by (induction xss) auto

lemma concat_disjoint:
  "distinct (concat xss) \<Longrightarrow> i < length xss \<Longrightarrow> j < length xss \<Longrightarrow> i \<noteq> j \<Longrightarrow>
   set (xss ! i) \<inter> set (xss ! j) = {}"
proof (induction xss arbitrary: i j)
  case Nil
  then show ?case by simp
next
  case (Cons xs xss)
  show ?case
  proof (cases i)
    case 0
    with Cons.prems obtain j' where j: "j = Suc j'" "j' < length xss" by (cases j) auto
    then have "xss ! j' \<in> set xss" by simp
    with Cons.prems(1) have "set xs \<inter> set (xss ! j') = {}" by auto
    with 0 j show ?thesis by simp
  next
    case (Suc i')
    show ?thesis
    proof (cases j)
      case 0
      from Suc Cons.prems have "xss ! i' \<in> set xss" by simp
      with Cons.prems(1) have "set xs \<inter> set (xss ! i') = {}" by auto
      with 0 Suc show ?thesis by auto
    next
      case (Suc j')
      with \<open>i = Suc i'\<close> Cons show ?thesis by auto
    qed
  qed
qed

lemma wfStore_row_bound:
  "wfStore e S \<Longrightarrow> g < length (gridHeap S) \<Longrightarrow> a \<in> set (gridHeap S ! g) \<Longrightarrow> a < length (rowHeap S)"
proof -
  assume wf: "wfStore e S" and g: "g < length (gridHeap S)" and a: "a \<in> set (gridHeap S ! g)"
  from g a have "a \<in> set (concat (gridHeap S))" by auto
  with wf show ?thesis by (simp add: wfStore_def)
qed

lemma wfStore_distinct_rows:
  "wfStore e S \<Longrightarrow> g < length (gridHeap S) \<Longrightarrow> distinct (gridHeap S ! g)"
proof -
  assume wf: "wfStore e S" and g: "g < length (gridHeap S)"
  from wf have "distinct (concat (gridHeap S))" by (simp add: wfStore_def)
  with g show ?thesis by (auto intro: distinct_concat_elem)
qed

lemma wfStore_disjoint_rows:
  "wfStore e S \<Longrightarrow> g < length (gridHeap S) \<Longrightarrow> h < length (gridHeap S) \<Longrightarrow> g \<noteq> h \<Longrightarrow>
   set (gridHeap S ! g) \<inter> set (gridHeap S ! h) = {}"
proof -
  assume wf: "wfStore e S" and g: "g < length (gridHeap S)" "h < length (gridHeap S)" "g \<noteq> h"
  from wf have "distinct (concat (gridHeap S))" by (simp add: wfStore_def)
  with g show ?thesis using concat_disjoint[of "gridHeap S" g h] by simp
qed

lemma wfStore_height:
  "wfStore e S \<Longrightarrow> g < length (gridHeap S) \<Longrightarrow> length (gridHeap S ! g) = logicHeight e"
  by (simp add: wfStore_def list_all_length)

lemma wfStore_width:
  "wfStore e S \<Longrightarrow> a < length (rowHeap S) \<Longrightarrow> length (rowHeap S ! a) = logicWidth e"
  by (simp add: wfStore_def list_all_length)

subsection \<open>Stores that only grow\<close>

lemma extends_refl: "extends S S"
  by (simp add: extends_def)

lemma extends_length:
  "extends S S' \<Longrightarrow> length (rowHeap S) \<le> length (rowHeap S') \<and> length (gridHeap S) \<le> length (gridHeap S')"
proof -
  assume a: "extends S S'"
  then have "length (take (length (rowHeap S)) (rowHeap S')) = length (rowHeap S)"
    by (simp add: extends_def)
  moreover from a have "length (take (length (gridHeap S)) (gridHeap S')) = length (gridHeap S)"
    by (simp add: extends_def)
  ultimately show ?thesis by (auto simp: min_def split: if_splits)
qed

lemma extends_row: "extends S S' \<Longrightarrow> a < length (rowHeap S) \<Longrightarrow> rowHeap S' ! a = rowHeap S ! a"
  unfolding extends_def by (metis nth_take)

lemma extends_grid: "extends S S' \<Longrightarrow> g < length (gridHeap S) \<Longrightarrow> gridHeap S' ! g = gridHeap S ! g"
  unfolding extends_def by (metis nth_take)

lemma extends_trans: "extends S S' \<Longrightarrow> extends S' S'' \<Longrightarrow> extends S S''"
proof -
  assume a: "extends S S'" and b: "extends S' S''"
  have l: "length (rowHeap S) \<le> length (rowHeap S')" "length (gridHeap S) \<le> length (gridHeap S')"
    using extends_length[OF a] by auto
  have "take (length (rowHeap S)) (rowHeap S'') = take (length (rowHeap S)) (take (length (rowHeap S')) (rowHeap S''))"
    using l by (simp add: min_def)
  also have "\<dots> = rowHeap S" using a b by (simp add: extends_def)
  finally have r: "take (length (rowHeap S)) (rowHeap S'') = rowHeap S" .
  have "take (length (gridHeap S)) (gridHeap S'') = take (length (gridHeap S)) (take (length (gridHeap S')) (gridHeap S''))"
    using l by (simp add: min_def)
  also have "\<dots> = gridHeap S" using a b by (simp add: extends_def)
  finally have g: "take (length (gridHeap S)) (gridHeap S'') = gridHeap S" .
  from r g show ?thesis by (simp add: extends_def)
qed

lemma extends_gridValue:
  assumes "extends S S'" "wfStore e S" "g < length (gridHeap S)"
  shows "gridValue S' g = gridValue S g"
proof -
  have "gridHeap S' ! g = gridHeap S ! g" using assms by (simp add: extends_grid)
  moreover have "\<forall>a \<in> set (gridHeap S ! g). rowHeap S' ! a = rowHeap S ! a"
    using assms by (auto simp: extends_row wfStore_row_bound)
  ultimately show ?thesis by (simp add: gridValue_def)
qed


subsection \<open>Copying a grid\<close>

lemma map_nth_append_upt:
  "map (\<lambda>a. (xs @ ys) ! a) [length xs ..< length xs + length ys] = ys"
  by (rule nth_equalityI) (simp_all add: nth_append)

lemma copyGrid_fst: "fst (copyGrid S g) = length (gridHeap S)"
  by (simp add: copyGrid_def Let_def)

lemma copyGrid_extends: "extends S (snd (copyGrid S g))"
  by (simp add: copyGrid_def Let_def extends_def)

lemma copyGrid_length: "length (gridHeap (snd (copyGrid S g))) = Suc (length (gridHeap S))"
  by (simp add: copyGrid_def Let_def)

lemma copyGrid_rows:
  "gridHeap (snd (copyGrid S g)) ! (fst (copyGrid S g)) =
     [length (rowHeap S) ..< length (rowHeap S) + length (gridHeap S ! g)]"
  by (simp add: copyGrid_def Let_def)


lemma copyGrid_value: "gridValue (snd (copyGrid S g)) (fst (copyGrid S g)) = gridValue S g"
proof -
  let ?new = "map (\<lambda>a. rowHeap S ! a) (gridHeap S ! g)"
  have "map (\<lambda>a. (rowHeap S @ ?new) ! a) [length (rowHeap S) ..< length (rowHeap S) + length ?new] = ?new"
    by (rule map_nth_append_upt)
  then have "map (\<lambda>a. (rowHeap S @ ?new) ! a)
               [length (rowHeap S) ..< length (rowHeap S) + length (gridHeap S ! g)] = ?new"
    by simp
  then show ?thesis
    unfolding copyGrid_def Let_def gridValue_def by simp
qed

lemma copyGrid_wf:
  assumes "wfStore e S" "g < length (gridHeap S)"
  shows "wfStore e (snd (copyGrid S g))"
proof -
  have c: "concat (gridHeap S) = [0 ..< length (rowHeap S)]" using assms by (simp add: wfStore_def)
  have h: "length (gridHeap S ! g) = logicHeight e" using assms by (rule wfStore_height)
  have w: "\<forall>a \<in> set (gridHeap S ! g). length (rowHeap S ! a) = logicWidth e"
    using assms by (auto simp: wfStore_width wfStore_row_bound)
  have la: "list_all (\<lambda>g. length g = logicHeight e) (gridHeap S)"
    and lr: "list_all (\<lambda>r. length r = logicWidth e) (rowHeap S)"
    using assms(1) by (simp_all add: wfStore_def)
  have 1: "concat (gridHeap S @ [[length (rowHeap S) ..< length (rowHeap S) + length (gridHeap S ! g)]])
        = [0 ..< length (rowHeap S @ map (\<lambda>a. rowHeap S ! a) (gridHeap S ! g))]"
    using c upt_add_eq_append[of 0 "length (rowHeap S)" "length (gridHeap S ! g)"] by simp
  have 2: "list_all (\<lambda>g. length g = logicHeight e)
             (gridHeap S @ [[length (rowHeap S) ..< length (rowHeap S) + length (gridHeap S ! g)]])"
    using la h by simp
  have 3: "list_all (\<lambda>r. length r = logicWidth e) (rowHeap S @ map (\<lambda>a. rowHeap S ! a) (gridHeap S ! g))"
    using lr w by (auto simp: list_all_iff)
  show ?thesis
    unfolding copyGrid_def Let_def wfStore_def using 1 2 3 by simp
qed


subsection \<open>Writing cells\<close>

lemma map_update_distinct:
  assumes "distinct rs" "r < length rs" "\<forall>a \<in> set rs. a < length rows"
  shows "map (\<lambda>a. rows[rs ! r := x] ! a) rs = (map (\<lambda>a. rows ! a) rs)[r := x]"
proof (rule nth_equalityI)
  show "length (map (\<lambda>a. rows[rs ! r := x] ! a) rs) = length ((map (\<lambda>a. rows ! a) rs)[r := x])"
    by simp
next
  fix i assume "i < length (map (\<lambda>a. rows[rs ! r := x] ! a) rs)"
  then have i: "i < length rs" by simp
  have eq: "(rs ! i = rs ! r) = (i = r)"
    using assms(1,2) i by (simp add: nth_eq_iff_index_eq)
  have b: "rs ! r < length rows" using assms(2,3) by simp
  show "map (\<lambda>a. rows[rs ! r := x] ! a) rs ! i = (map (\<lambda>a. rows ! a) rs)[r := x] ! i"
    using i b eq assms(2) by (auto simp: nth_list_update)
qed

lemma writeCell_ok:
  assumes wf: "wfStore e S" and g: "g < length (gridHeap S)"
    and r: "r < logicHeight e" and c: "c < logicWidth e"
  shows "\<exists>S'. writeCell S g r c v = Inr S' \<and> wfStore e S' \<and> gridHeap S' = gridHeap S \<and>
           length (rowHeap S') = length (rowHeap S) \<and>
           (\<forall>a. a \<notin> set (gridHeap S ! g) \<longrightarrow> rowHeap S' ! a = rowHeap S ! a) \<and>
           gridValue S' g = (gridValue S g)[r := (gridValue S g ! r)[c := Some v]]"
proof -
  let ?rs = "gridHeap S ! g"
  let ?a = "?rs ! r"
  let ?x = "(rowHeap S ! ?a)[c := Some v]"
  let ?S' = "S\<lparr>rowHeap := (rowHeap S)[?a := ?x]\<rparr>"
  have h: "length ?rs = logicHeight e" using wf g by (rule wfStore_height)
  have rin: "?a \<in> set ?rs" using r h by simp
  have bnd: "\<forall>a \<in> set ?rs. a < length (rowHeap S)"
    using wf g by (auto intro: wfStore_row_bound)
  have a: "?a < length (rowHeap S)" using bnd rin by blast
  have w: "length (rowHeap S ! ?a) = logicWidth e" using wf a by (rule wfStore_width)
  have js: "js_set (rowHeap S ! ?a) c v = ?x" using w c by (simp add: js_set_def)
  have 1: "writeCell S g r c v = Inr ?S'"
    using r h js by (simp add: writeCell_def)
  have lr: "list_all (\<lambda>r. length r = logicWidth e) (rowHeap S)"
    using wf by (simp add: wfStore_def)
  have "list_all (\<lambda>r. length r = logicWidth e) ((rowHeap S)[?a := ?x])"
    unfolding list_all_length
  proof (intro allI impI)
    fix n assume "n < length ((rowHeap S)[?a := ?x])"
    then have n: "n < length (rowHeap S)" by simp
    then have "length (rowHeap S ! n) = logicWidth e" using lr by (simp add: list_all_length)
    then show "length ((rowHeap S)[?a := ?x] ! n) = logicWidth e"
      using n w by (cases "n = ?a") simp_all
  qed
  then have 2: "wfStore e ?S'" using wf by (simp add: wfStore_def)
  have 3: "\<forall>b. b \<notin> set ?rs \<longrightarrow> rowHeap ?S' ! b = rowHeap S ! b"
  proof (intro allI impI)
    fix b assume "b \<notin> set ?rs"
    with rin have "?a \<noteq> b" by auto
    then show "rowHeap ?S' ! b = rowHeap S ! b" by simp
  qed
  have d: "distinct ?rs" using wf g by (rule wfStore_distinct_rows)
  have "map (\<lambda>b. (rowHeap S)[?rs ! r := ?x] ! b) ?rs = (map (\<lambda>b. rowHeap S ! b) ?rs)[r := ?x]"
    using d _ bnd by (rule map_update_distinct) (simp add: r h)
  then have 4: "gridValue ?S' g = (gridValue S g)[r := (gridValue S g ! r)[c := Some v]]"
    using r h by (simp add: gridValue_def)
  from 1 2 3 4 show ?thesis by simp
qed


lemma gridValue_height:
  "wfStore e S \<Longrightarrow> g < length (gridHeap S) \<Longrightarrow> length (gridValue S g) = logicHeight e"
  by (simp add: gridValue_def wfStore_height)

lemma gridValue_width:
  assumes "wfStore e S" "g < length (gridHeap S)" "r < logicHeight e"
  shows "length (gridValue S g ! r) = logicWidth e"
proof -
  have h: "length (gridHeap S ! g) = logicHeight e" using assms by (simp add: wfStore_height)
  then have "gridHeap S ! g ! r \<in> set (gridHeap S ! g)" using assms(3) by simp
  then have "gridHeap S ! g ! r < length (rowHeap S)" using assms by (auto intro: wfStore_row_bound)
  then have "length (rowHeap S ! (gridHeap S ! g ! r)) = logicWidth e"
    using assms(1) by (simp add: wfStore_width)
  then show ?thesis using h assms(3) by (simp add: gridValue_def)
qed

lemma update2_nth:
  assumes "r < length G" "c < length (G ! r)"
  shows "G[r := (G ! r)[c := x]] ! r' ! c' = (if r' = r \<and> c' = c then x else G ! r' ! c')"
  using assms by (cases "r' = r"; cases "c' = c") simp_all

lemma stampCells_ok:
  assumes "wfStore e S" "g < length (gridHeap S)"
  shows "\<exists>S'. stampCells e v g cs S = Inr S' \<and> wfStore e S' \<and> gridHeap S' = gridHeap S \<and>
           length (rowHeap S') = length (rowHeap S) \<and>
           (\<forall>a. a \<notin> set (gridHeap S ! g) \<longrightarrow> rowHeap S' ! a = rowHeap S ! a) \<and>
           (\<forall>r c. r < logicHeight e \<longrightarrow> c < logicWidth e \<longrightarrow>
              gridValue S' g ! r ! c =
                (if (int r, int c) \<in> set cs then Some v else gridValue S g ! r ! c))"
  using assms
proof (induction cs arbitrary: S)
  case Nil
  then show ?case by simp
next
  case (Cons rc rest)
  obtain r0 c0 where rc: "rc = (r0, c0)" by (cases rc)
  show ?case
  proof (cases "inBounds e r0 c0")
    case False
    from Cons.IH[OF Cons.prems] obtain S' where
      S': "stampCells e v g rest S = Inr S'" "wfStore e S'" "gridHeap S' = gridHeap S"
        "length (rowHeap S') = length (rowHeap S)"
        "\<forall>a. a \<notin> set (gridHeap S ! g) \<longrightarrow> rowHeap S' ! a = rowHeap S ! a"
        "\<forall>r c. r < logicHeight e \<longrightarrow> c < logicWidth e \<longrightarrow>
              gridValue S' g ! r ! c =
                (if (int r, int c) \<in> set rest then Some v else gridValue S g ! r ! c)"
      by blast
    have ne: "\<And>r c. r < logicHeight e \<Longrightarrow> c < logicWidth e \<Longrightarrow> (int r, int c) \<noteq> (r0, c0)"
      using False by (auto simp: inBounds_def)
    have "\<forall>r c. r < logicHeight e \<longrightarrow> c < logicWidth e \<longrightarrow>
              gridValue S' g ! r ! c =
                (if (int r, int c) \<in> set (rc # rest) then Some v else gridValue S g ! r ! c)"
      using S'(6) ne rc by auto
    with S'(1-5) False rc show ?thesis by simp
  next
    case True
    then have r0: "nat r0 < logicHeight e" "0 \<le> r0" and c0: "nat c0 < logicWidth e" "0 \<le> c0"
      by (auto simp: inBounds_def)
    from writeCell_ok[OF Cons.prems r0(1) c0(1), of v] obtain S1 where
      S1: "writeCell S g (nat r0) (nat c0) v = Inr S1" "wfStore e S1" "gridHeap S1 = gridHeap S"
        "length (rowHeap S1) = length (rowHeap S)"
        "\<forall>a. a \<notin> set (gridHeap S ! g) \<longrightarrow> rowHeap S1 ! a = rowHeap S ! a"
        "gridValue S1 g = (gridValue S g)[nat r0 := (gridValue S g ! nat r0)[nat c0 := Some v]]"
      by blast
    have g1: "g < length (gridHeap S1)" using Cons.prems S1(3) by simp
    from Cons.IH[OF S1(2) g1] obtain S' where
      S': "stampCells e v g rest S1 = Inr S'" "wfStore e S'" "gridHeap S' = gridHeap S1"
        "length (rowHeap S') = length (rowHeap S1)"
        "\<forall>a. a \<notin> set (gridHeap S1 ! g) \<longrightarrow> rowHeap S' ! a = rowHeap S1 ! a"
        "\<forall>r c. r < logicHeight e \<longrightarrow> c < logicWidth e \<longrightarrow>
              gridValue S' g ! r ! c =
                (if (int r, int c) \<in> set rest then Some v else gridValue S1 g ! r ! c)"
      by blast
    have hG: "length (gridValue S g) = logicHeight e"
      using Cons.prems by (rule gridValue_height)
    have wG: "length (gridValue S g ! nat r0) = logicWidth e"
      using Cons.prems r0(1) by (rule gridValue_width)
    have cell1: "\<And>r c. gridValue S1 g ! r ! c =
        (if r = nat r0 \<and> c = nat c0 then Some v else gridValue S g ! r ! c)"
      unfolding S1(6) using hG wG r0(1) c0(1) by (simp add: update2_nth)
    have hd: "\<And>r c. ((int r, int c) = (r0, c0)) = (r = nat r0 \<and> c = nat c0)"
      using r0(2) c0(2) by auto
    have cells: "\<forall>r c. r < logicHeight e \<longrightarrow> c < logicWidth e \<longrightarrow>
              gridValue S' g ! r ! c =
                (if (int r, int c) \<in> set (rc # rest) then Some v else gridValue S g ! r ! c)"
    proof (intro allI impI)
      fix r c assume "r < logicHeight e" "c < logicWidth e"
      then have "gridValue S' g ! r ! c =
                (if (int r, int c) \<in> set rest then Some v else gridValue S1 g ! r ! c)"
        using S'(6) by blast
      then show "gridValue S' g ! r ! c =
                (if (int r, int c) \<in> set (rc # rest) then Some v else gridValue S g ! r ! c)"
        using cell1[of r c] hd[of r c] rc by auto
    qed
    have frame: "\<forall>a. a \<notin> set (gridHeap S ! g) \<longrightarrow> rowHeap S' ! a = rowHeap S ! a"
      using S'(5) S1(3,5) by simp
    have run: "stampCells e v g (rc # rest) S = Inr S'"
      using True S1(1) S'(1) rc by simp
    from run S'(2) S'(3) S1(3) S'(4) S1(4) frame cells show ?thesis by simp
  qed
qed


section \<open>Handlers keep the state consistent\<close>

lemma consistent_noAlias:
  assumes "consistent e s"
  shows "noAlias s"
proof -
  have wf: "wfStore e (heap s)" and p: "pixels s < length (gridHeap (heap s))"
    and h: "\<forall>g \<in> set (history s). g < length (gridHeap (heap s))"
    and n: "pixels s \<notin> set (history s)"
    using assms by (simp_all add: consistent_def list_all_iff)
  have "\<forall>g \<in> set (history s).
          set (gridHeap (heap s) ! pixels s) \<inter> set (gridHeap (heap s) ! g) = {}"
  proof
    fix g assume g: "g \<in> set (history s)"
    with n have "pixels s \<noteq> g" by auto
    with wf p h g show "set (gridHeap (heap s) ! pixels s) \<inter> set (gridHeap (heap s) ! g) = {}"
      by (simp add: wfStore_disjoint_rows)
  qed
  with n show ?thesis by (simp add: noAlias_def list_all_iff)
qed

lemma consistent_update:
  assumes "consistent e s" "wfStore e S'"
    and "length (gridHeap (heap s)) \<le> length (gridHeap S')"
    and "p < length (gridHeap S')"
    and "length (gridHeap (heap s)) \<le> p \<or> p = pixels s"
  shows "consistent e (s\<lparr>heap := S', pixels := p\<rparr>)"
proof -
  have h: "\<forall>g \<in> set (history s). g < length (gridHeap (heap s))"
    and n: "pixels s \<notin> set (history s)"
    using assms(1) by (simp_all add: consistent_def list_all_iff)
  have "p \<notin> set (history s)" using assms(5) h n by auto
  moreover have "\<forall>g \<in> set (history s). g < length (gridHeap S')" using h assms(3) by auto
  ultimately show ?thesis using assms(1,2,4) by (simp add: consistent_def list_all_iff)
qed

lemma drawPixel_ok:
  assumes cs: "consistent e s"
  shows "\<exists>s'. drawPixel e b row col s = Inr s' \<and> consistent e s' \<and>
           extends (heap s) (heap s') \<and>
           history s' = history s \<and> historyStep s' = historyStep s \<and>
           isDrawing s' = isDrawing s \<and> hoverPos s' = hoverPos s \<and> canvas s' = canvas s \<and>
           (\<forall>r c. r < logicHeight e \<longrightarrow> c < logicWidth e \<longrightarrow>
              currentGrid s' ! r ! c =
                (if \<not> isGrab b \<and> (int r, int c) \<in> set (footprint e b row col)
                 then Some (fillColor e b) else currentGrid s ! r ! c))"
proof (cases "isGrab b")
  case True
  with cs show ?thesis by (simp add: drawPixel_def extends_refl)
next
  case False
  let ?S = "heap s"
  let ?g = "fst (copyGrid ?S (pixels s))"
  let ?S1 = "snd (copyGrid ?S (pixels s))"
  have wf: "wfStore e ?S" and p: "pixels s < length (gridHeap ?S)"
    using cs by (simp_all add: consistent_def)
  have wf1: "wfStore e ?S1" using wf p by (rule copyGrid_wf)
  have g: "?g = length (gridHeap ?S)" by (rule copyGrid_fst)
  have g1: "?g < length (gridHeap ?S1)" by (simp add: g copyGrid_length)
  from stampCells_ok[OF wf1 g1, of "fillColor e b" "footprint e b row col"] obtain S' where
    S': "stampCells e (fillColor e b) ?g (footprint e b row col) ?S1 = Inr S'" "wfStore e S'"
      "gridHeap S' = gridHeap ?S1" "length (rowHeap S') = length (rowHeap ?S1)"
      "\<forall>a. a \<notin> set (gridHeap ?S1 ! ?g) \<longrightarrow> rowHeap S' ! a = rowHeap ?S1 ! a"
      "\<forall>r c. r < logicHeight e \<longrightarrow> c < logicWidth e \<longrightarrow>
         gridValue S' ?g ! r ! c =
           (if (int r, int c) \<in> set (footprint e b row col) then Some (fillColor e b)
            else gridValue ?S1 ?g ! r ! c)"
    by blast
  let ?s' = "s\<lparr>heap := S', pixels := ?g\<rparr>"
  have dp: "drawPixel e b row col s = Inr ?s'"
    using False S'(1) by (simp add: drawPixel_def split_beta)
  have e1: "extends ?S ?S1" by (rule copyGrid_extends)
  have l1: "length (rowHeap ?S) \<le> length (rowHeap ?S1)" using extends_length[OF e1] by simp
  have "take (length (rowHeap ?S)) (rowHeap S') = rowHeap ?S"
  proof (rule nth_equalityI)
    show "length (take (length (rowHeap ?S)) (rowHeap S')) = length (rowHeap ?S)"
      using l1 S'(4) by simp
  next
    fix a assume "a < length (take (length (rowHeap ?S)) (rowHeap S'))"
    then have a: "a < length (rowHeap ?S)" by simp
    then have "a \<notin> set (gridHeap ?S1 ! ?g)" by (simp add: copyGrid_rows)
    then have "rowHeap S' ! a = rowHeap ?S1 ! a" using S'(5) by blast
    also have "\<dots> = rowHeap ?S ! a" using e1 a by (rule extends_row)
    finally show "take (length (rowHeap ?S)) (rowHeap S') ! a = rowHeap ?S ! a" using a by simp
  qed
  moreover have "take (length (gridHeap ?S)) (gridHeap S') = gridHeap ?S"
    using e1 S'(3) by (simp add: extends_def)
  ultimately have ext: "extends ?S S'" by (simp add: extends_def)
  have "consistent e ?s'"
    using cs S'(2)
  proof (rule consistent_update)
    show "length (gridHeap (heap s)) \<le> length (gridHeap S')" by (simp add: S'(3) copyGrid_length)
    show "?g < length (gridHeap S')" using g1 S'(3) by simp
    show "length (gridHeap (heap s)) \<le> ?g \<or> ?g = pixels s" using g by simp
  qed
  moreover have "\<forall>r c. r < logicHeight e \<longrightarrow> c < logicWidth e \<longrightarrow>
              currentGrid ?s' ! r ! c =
                (if \<not> isGrab b \<and> (int r, int c) \<in> set (footprint e b row col)
                 then Some (fillColor e b) else currentGrid s ! r ! c)"
    using S'(6) False by (simp add: currentGrid_def copyGrid_value)
  ultimately show ?thesis using dp ext by simp
qed

lemma restoreFromHistory_ok:
  assumes cs: "consistent e s"
  shows "consistent e (restoreFromHistory s) \<and> extends (heap s) (heap (restoreFromHistory s)) \<and>
         history (restoreFromHistory s) = history s \<and>
         historyStep (restoreFromHistory s) = historyStep s \<and>
         isDrawing (restoreFromHistory s) = isDrawing s \<and>
         hoverPos (restoreFromHistory s) = hoverPos s \<and>
         canvas (restoreFromHistory s) = canvas s \<and>
         currentGrid (restoreFromHistory s) = historyGrid s (historyStep s) \<and>
         synced (restoreFromHistory s)"
proof -
  let ?S = "heap s"
  let ?h = "history s ! historyStep s"
  let ?g = "fst (copyGrid ?S ?h)"
  let ?S1 = "snd (copyGrid ?S ?h)"
  let ?s' = "s\<lparr>heap := ?S1, pixels := ?g\<rparr>"
  have wf: "wfStore e ?S" and c: "historyStep s < length (history s)"
    and hs: "\<forall>g \<in> set (history s). g < length (gridHeap ?S)"
    using cs by (simp_all add: consistent_def list_all_iff)
  have h: "?h < length (gridHeap ?S)" using c hs by simp
  have r: "restoreFromHistory s = ?s'" using c by (simp add: restoreFromHistory_def split_beta)
  have wf1: "wfStore e ?S1" using wf h by (rule copyGrid_wf)
  have g: "?g = length (gridHeap ?S)" by (rule copyGrid_fst)
  have e1: "extends ?S ?S1" by (rule copyGrid_extends)
  have "consistent e ?s'"
    using cs wf1
  proof (rule consistent_update)
    show "length (gridHeap (heap s)) \<le> length (gridHeap ?S1)" by (simp add: copyGrid_length)
    show "?g < length (gridHeap ?S1)" by (simp add: g copyGrid_length)
    show "length (gridHeap (heap s)) \<le> ?g \<or> ?g = pixels s" using g by simp
  qed
  moreover have cur: "currentGrid ?s' = historyGrid s (historyStep s)"
    by (simp add: currentGrid_def historyGrid_def copyGrid_value)
  moreover have "historyGrid ?s' (historyStep s) = historyGrid s (historyStep s)"
    using e1 wf h by (simp add: historyGrid_def extends_gridValue)
  ultimately show ?thesis using r e1 by (simp add: synced_def)
qed

lemma handleMouseUp_ok:
  assumes cs: "consistent e s"
  shows "consistent e (handleMouseUp s) \<and> extends (heap s) (heap (handleMouseUp s)) \<and>
         pixels (handleMouseUp s) = pixels s \<and>
         history (handleMouseUp s) =
           take (Suc (historyStep s)) (history s) @ [length (gridHeap (heap s))] \<and>
         historyStep (handleMouseUp s) = Suc (historyStep s) \<and>
         historyGrid (handleMouseUp s) (Suc (historyStep s)) = currentGrid s"
proof -
  let ?S = "heap s"
  let ?g = "fst (copyGrid ?S (pixels s))"
  let ?S1 = "snd (copyGrid ?S (pixels s))"
  let ?h = "take (Suc (historyStep s)) (history s) @ [length (gridHeap ?S)]"
  let ?s' = "s\<lparr>heap := ?S1, isDrawing := False, history := ?h, historyStep := Suc (historyStep s)\<rparr>"
  have wf: "wfStore e ?S" and p: "pixels s < length (gridHeap ?S)"
    and c: "historyStep s < length (history s)"
    and hs: "\<forall>g \<in> set (history s). g < length (gridHeap ?S)"
    and d: "distinct (history s)" and n: "pixels s \<notin> set (history s)"
    using cs by (simp_all add: consistent_def list_all_iff)
  have g: "?g = length (gridHeap ?S)" by (rule copyGrid_fst)
  have r: "handleMouseUp s = ?s'" by (simp add: handleMouseUp_def split_beta g)
  have wf1: "wfStore e ?S1" using wf p by (rule copyGrid_wf)
  have e1: "extends ?S ?S1" by (rule copyGrid_extends)
  have l1: "length (gridHeap ?S1) = Suc (length (gridHeap ?S))" by (rule copyGrid_length)
  have sub: "set (take (Suc (historyStep s)) (history s)) \<subseteq> set (history s)"
    by (rule set_take_subset)
  have tk: "\<forall>g \<in> set (take (Suc (historyStep s)) (history s)). g < length (gridHeap ?S)"
    using hs sub by blast
  have 1: "\<forall>g \<in> set ?h. g < length (gridHeap ?S1)" using tk l1 by auto
  have 2: "distinct ?h" using d tk by auto
  have 3: "pixels s \<notin> set ?h" using n sub p by auto
  have 4: "Suc (historyStep s) < length ?h" using c by simp
  have cs': "consistent e ?s'"
    using wf1 p l1 1 2 3 4 by (simp add: consistent_def list_all_iff)
  have "?h ! Suc (historyStep s) = ?g" using c g by (simp add: nth_append)
  then have 5: "historyGrid ?s' (Suc (historyStep s)) = currentGrid s"
    by (simp add: historyGrid_def currentGrid_def copyGrid_value)
  from cs' e1 5 show ?thesis unfolding r by simp
qed

lemma mouseUp_ok:
  assumes cs: "consistent e s"
  shows "\<exists>s'. step e b s MouseUp = Inr s' \<and> consistent e s' \<and> extends (heap s) (heap s') \<and>
           history s' = take (Suc (historyStep s)) (history s) @ [length (gridHeap (heap s))] \<and>
           historyStep s' = Suc (historyStep s) \<and>
           currentGrid s' = currentGrid s \<and> synced s'"
proof -
  let ?s1 = "handleMouseUp s"
  let ?s' = "restoreFromHistory ?s1"
  note u = handleMouseUp_ok[OF cs]
  from u have c1: "consistent e ?s1" by simp
  note r = restoreFromHistory_ok[OF c1]
  have st: "step e b s MouseUp = Inr ?s'"
    using u by (simp add: step_def handle_def afterRender_def)
  have ext: "extends (heap s) (heap ?s')"
    using u r by (blast intro: extends_trans)
  have "currentGrid ?s' = historyGrid ?s1 (historyStep ?s1)" using r by simp
  also have "\<dots> = currentGrid s" using u by simp
  finally have cur: "currentGrid ?s' = currentGrid s" .
  from st r u ext cur show ?thesis by simp
qed

lemma handleKeyDown_undo: "handleKeyDown True ''z'' s = s\<lparr>historyStep := historyStep s - 1\<rparr>"
  by (simp add: handleKeyDown_def toLowerChar_def)

lemma undo_at_zero:
  assumes "historyStep s = 0"
  shows "step e b s undoKey = Inr s"
  using assms by (simp add: step_def handle_def undoKey_def handleKeyDown_undo afterRender_def)

lemma undo_ok:
  assumes cs: "consistent e s" and pos: "0 < historyStep s"
  shows "\<exists>s'. step e b s undoKey = Inr s' \<and> consistent e s' \<and> extends (heap s) (heap s') \<and>
           history s' = history s \<and> historyStep s' = historyStep s - 1 \<and>
           isDrawing s' = isDrawing s \<and> hoverPos s' = hoverPos s \<and>
           currentGrid s' = historyGrid s (historyStep s - 1) \<and> synced s'"
proof -
  let ?s1 = "s\<lparr>historyStep := historyStep s - 1\<rparr>"
  let ?s' = "restoreFromHistory ?s1"
  have c1: "consistent e ?s1" using cs by (auto simp: consistent_def)
  note r = restoreFromHistory_ok[OF c1]
  have st: "step e b s undoKey = Inr ?s'"
    using pos by (simp add: step_def handle_def undoKey_def handleKeyDown_undo afterRender_def)
  have "historyGrid ?s1 (historyStep ?s1) = historyGrid s (historyStep s - 1)"
    by (simp add: historyGrid_def)
  with st r show ?thesis by simp
qed

lemma step_ok:
  assumes cs: "consistent e s"
  shows "\<exists>s'. step e b s ev = Inr s' \<and> consistent e s' \<and> extends (heap s) (heap s')"
proof (cases ev)
  case (MouseDown row col)
  from drawPixel_ok[OF cs, of b row col] obtain s1 where
    s1: "drawPixel e b row col s = Inr s1" "consistent e s1" "extends (heap s) (heap s1)"
      "historyStep s1 = historyStep s"
    by blast
  have "step e b s ev = Inr (s1\<lparr>isDrawing := True\<rparr>)"
    using MouseDown s1(1,4) by (simp add: step_def handle_def handleMouseDown_def afterRender_def)
  moreover have "consistent e (s1\<lparr>isDrawing := True\<rparr>)" using s1(2) by (simp add: consistent_def)
  ultimately show ?thesis using s1(3) by simp
next
  case (MouseMove row col)
  let ?s0 = "s\<lparr>hoverPos := Some (row, col)\<rparr>"
  have c0: "consistent e ?s0" using cs by (simp add: consistent_def)
  show ?thesis
  proof (cases "isDrawing s")
    case True
    from drawPixel_ok[OF c0, of b row col] obtain s1 where
      s1: "drawPixel e b row col ?s0 = Inr s1" "consistent e s1" "extends (heap ?s0) (heap s1)"
        "historyStep s1 = historyStep ?s0"
      by blast
    have "step e b s ev = Inr s1"
      using MouseMove True s1(1,4) by (simp add: step_def handle_def handleMouseMove_def afterRender_def)
    with s1 show ?thesis by simp
  next
    case False
    have "step e b s ev = Inr ?s0"
      using MouseMove False by (simp add: step_def handle_def handleMouseMove_def afterRender_def)
    with c0 show ?thesis by (simp add: extends_refl)
  qed
next
  case MouseUp
  with mouseUp_ok[OF cs, of b] show ?thesis by auto
next
  case MouseLeave
  have "step e b s ev = Inr (s\<lparr>hoverPos := None\<rparr>)"
    using MouseLeave by (simp add: step_def handle_def handleMouseLeave_def afterRender_def)
  moreover have "consistent e (s\<lparr>hoverPos := None\<rparr>)" using cs by (simp add: consistent_def)
  ultimately show ?thesis by (simp add: extends_refl)
next
  case (KeyDown ctrlKey key)
  show ?thesis
  proof (cases "ctrlKey \<and> map toLowerChar key = ''z''")
    case False
    then have "step e b s ev = Inr s"
      using KeyDown by (auto simp: step_def handle_def handleKeyDown_def afterRender_def)
    with cs show ?thesis by (simp add: extends_refl)
  next
    case True
    then have hk: "handleKeyDown ctrlKey key s = s\<lparr>historyStep := historyStep s - 1\<rparr>"
      by (simp add: handleKeyDown_def)
    show ?thesis
    proof (cases "historyStep s = 0")
      case True
      then have "step e b s ev = Inr s"
        using KeyDown hk by (simp add: step_def handle_def afterRender_def)
      with cs show ?thesis by (simp add: extends_refl)
    next
      case False
      have "step e b s ev = step e b s undoKey"
        using KeyDown hk by (simp add: step_def handle_def undoKey_def handleKeyDown_undo)
      with undo_ok[OF cs, of b] False show ?thesis by auto
    qed
  qed
qed

subsection \<open>Event sequences\<close>

lemma run_append:
  "run e s (xs @ ys) = (case run e s xs of Inl x \<Rightarrow> Inl x | Inr s' \<Rightarrow> run e s' ys)"
  by (induction xs arbitrary: s) (auto split: sum.splits)

lemma run_ok:
  assumes "consistent e s"
  shows "\<exists>s'. run e s tr = Inr s' \<and> consistent e s' \<and> extends (heap s) (heap s')"
  using assms
proof (induction tr arbitrary: s)
  case Nil
  then show ?case by (simp add: extends_refl)
next
  case (Cons x tr)
  obtain b ev where x: "x = (b, ev)" by (cases x)
  from step_ok[OF Cons.prems, of b ev] obtain s1 where
    s1: "step e b s ev = Inr s1" "consistent e s1" "extends (heap s) (heap s1)" by blast
  from Cons.IH[OF s1(2)] obtain s' where
    s': "run e s1 tr = Inr s'" "consistent e s'" "extends (heap s1) (heap s')" by blast
  have "extends (heap s) (heap s')" using s1(3) s'(3) by (rule extends_trans)
  with x s1(1) s'(1,2) show ?case by simp
qed

lemma init_ok: "consistent e (init e) \<and> synced (init e)"
proof -
  let ?S0 = "heap (initialState e)"
  let ?S1 = "snd (copyGrid ?S0 0)"
  have wf0: "wfStore e ?S0"
    by (simp add: wfStore_def initialState_def list_all_iff)
  have g0: "0 < length (gridHeap ?S0)" by (simp add: initialState_def)
  have wf1: "wfStore e ?S1" using wf0 g0 by (rule copyGrid_wf)
  have f: "fst (copyGrid ?S0 0) = 1" by (simp add: copyGrid_fst initialState_def)
  have l: "length (gridHeap ?S1) = 2" by (simp add: copyGrid_length initialState_def)
  have i: "init e = (initialState e)\<lparr>heap := ?S1, history := [1], historyStep := 0\<rparr>"
    using f by (simp add: init_def Let_def split_beta initialState_def)
  have p: "pixels (initialState e) = 0" by (simp add: initialState_def)
  have c: "consistent e (init e)"
    unfolding i using wf1 l p by (simp add: consistent_def)
  have "gridValue ?S1 0 = gridValue ?S0 0"
    using copyGrid_extends wf0 g0 by (rule extends_gridValue)
  moreover have "gridValue ?S1 1 = gridValue ?S0 0" using copyGrid_value[of ?S0 0] f by simp
  ultimately have "synced (init e)"
    unfolding i using p by (simp add: synced_def currentGrid_def historyGrid_def)
  with c show ?thesis by simp
qed

text \<open>The \<^verbatim>\<open>[historyStep]\<close> effect at mount finds an empty history and does nothing.\<close>

lemma restoreFromHistory_at_mount: "restoreFromHistory (initialState e) = initialState e"
  by (simp add: restoreFromHistory_def initialState_def)

lemma restoreFromHistory_fields:
  "history (restoreFromHistory s) = history s \<and>
   historyStep (restoreFromHistory s) = historyStep s \<and>
   isDrawing (restoreFromHistory s) = isDrawing s"
  by (simp add: restoreFromHistory_def split_beta)

lemma copyGrid_keeps_value:
  assumes "g < length (gridHeap S)" "\<forall>a \<in> set (gridHeap S ! g). a < length (rowHeap S)"
  shows "gridValue (snd (copyGrid S h)) g = gridValue S g"
  using assms by (simp add: copyGrid_def Let_def gridValue_def nth_append)

lemma footprint_single:
  "penSize b = 1 \<Longrightarrow> footprint e b row col = [(row, col)]"
  by (simp add: footprint_def brushOffsets_def)

lemma currentGrid_dims:
  assumes "consistent e s"
  shows "length (currentGrid s) = logicHeight e"
    and "r < logicHeight e \<Longrightarrow> length (currentGrid s ! r) = logicWidth e"
  using assms by (simp_all add: consistent_def currentGrid_def gridValue_height gridValue_width)

lemma grid_eqI:
  assumes "length G = h" "length G' = h"
    and "\<And>r. r < h \<Longrightarrow> length (G ! r) = w" "\<And>r. r < h \<Longrightarrow> length (G' ! r) = w"
    and "\<And>r c. r < h \<Longrightarrow> c < w \<Longrightarrow> G ! r ! c = G' ! r ! c"
  shows "G = G'"
proof (rule nth_equalityI)
  show "length G = length G'" using assms(1,2) by simp
next
  fix r assume "r < length G"
  then have r: "r < h" using assms(1) by simp
  show "G ! r = G' ! r"
  proof (rule nth_equalityI)
    show "length (G ! r) = length (G' ! r)" using assms(3,4) r by simp
  next
    fix c assume "c < length (G ! r)"
    then have "c < w" using assms(3) r by simp
    then show "G ! r ! c = G' ! r ! c" using assms(5) r by simp
  qed
qed

lemma drawPixel_fields:
  "drawPixel e b row col s = Inr s' \<Longrightarrow>
     history s' = history s \<and> historyStep s' = historyStep s \<and>
     isDrawing s' = isDrawing s \<and> hoverPos s' = hoverPos s"
  by (auto simp: drawPixel_def split: if_splits prod.splits sum.splits)

lemma draw_step_ok:
  assumes cs: "consistent e s" and ev: "ev = MouseDown row col \<or> ev = MouseMove row col"
  shows "\<exists>s'. step e b s ev = Inr s' \<and> consistent e s' \<and> extends (heap s) (heap s') \<and>
           history s' = history s \<and> historyStep s' = historyStep s"
proof -
  from step_ok[OF cs, of b ev] obtain s' where
    s': "step e b s ev = Inr s'" "consistent e s'" "extends (heap s) (heap s')" by blast
  have "history s' = history s \<and> historyStep s' = historyStep s"
    using ev s'(1)
    by (auto simp: step_def handle_def handleMouseDown_def handleMouseMove_def afterRender_def
          split: sum.splits if_splits dest!: drawPixel_fields)
  with s' show ?thesis by blast
qed

lemma moves_ok:
  assumes "consistent e s"
  shows "\<exists>s'. run e s (map (\<lambda>(r, c). (b, MouseMove r c)) ms) = Inr s' \<and> consistent e s' \<and>
           extends (heap s) (heap s') \<and> history s' = history s \<and> historyStep s' = historyStep s"
  using assms
proof (induction ms arbitrary: s)
  case Nil
  then show ?case by (simp add: extends_refl)
next
  case (Cons m ms)
  obtain r c where m: "m = (r, c)" by (cases m)
  from draw_step_ok[OF Cons.prems, of "MouseMove r c" r c b] obtain s1 where
    s1: "step e b s (MouseMove r c) = Inr s1" "consistent e s1" "extends (heap s) (heap s1)"
      "history s1 = history s" "historyStep s1 = historyStep s" by blast
  from Cons.IH[OF s1(2)] obtain s' where
    s': "run e s1 (map (\<lambda>(r, c). (b, MouseMove r c)) ms) = Inr s'" "consistent e s'"
      "extends (heap s1) (heap s')" "history s' = history s1" "historyStep s' = historyStep s1"
    by blast
  have "extends (heap s) (heap s')" using s1(3) s'(3) by (rule extends_trans)
  with m s1 s' show ?case by simp
qed

lemma stroke_ok:
  assumes cs: "consistent e s"
  shows "\<exists>s' g. run e s (stroke b row col ms) = Inr s' \<and> consistent e s' \<and>
           extends (heap s) (heap s') \<and>
           history s' = take (Suc (historyStep s)) (history s) @ [g] \<and>
           length (gridHeap (heap s)) \<le> g \<and>
           historyStep s' = Suc (historyStep s) \<and> synced s'"
proof -
  from draw_step_ok[OF cs, of "MouseDown row col" row col b] obtain s1 where
    s1: "step e b s (MouseDown row col) = Inr s1" "consistent e s1" "extends (heap s) (heap s1)"
      "history s1 = history s" "historyStep s1 = historyStep s" by blast
  from moves_ok[OF s1(2), of b ms] obtain s2 where
    s2: "run e s1 (map (\<lambda>(r, c). (b, MouseMove r c)) ms) = Inr s2" "consistent e s2"
      "extends (heap s1) (heap s2)" "history s2 = history s1" "historyStep s2 = historyStep s1"
    by blast
  from mouseUp_ok[OF s2(2), of b] obtain s3 where
    s3: "step e b s2 MouseUp = Inr s3" "consistent e s3" "extends (heap s2) (heap s3)"
      "history s3 = take (Suc (historyStep s2)) (history s2) @ [length (gridHeap (heap s2))]"
      "historyStep s3 = Suc (historyStep s2)" "synced s3"
    by blast
  have e02: "extends (heap s) (heap s2)" using s1(3) s2(3) by (rule extends_trans)
  then have e03: "extends (heap s) (heap s3)" using s3(3) by (rule extends_trans)
  have r: "run e s (stroke b row col ms) = Inr s3"
    using s1(1) s2(1) s3(1) by (simp add: stroke_def run_append)
  have h: "history s3 = take (Suc (historyStep s)) (history s) @ [length (gridHeap (heap s2))]"
    using s3(4) s1(4,5) s2(4,5) by simp
  have c: "historyStep s3 = Suc (historyStep s)" using s3(5) s1(5) s2(5) by simp
  have "length (gridHeap (heap s)) \<le> length (gridHeap (heap s2))"
    using extends_length[OF e02] by simp
  with r s3(2,6) e03 h c show ?thesis by blast
qed

lemma undos_ok:
  assumes "consistent e s"
  shows "\<exists>s'. run e s (undos b k) = Inr s' \<and> consistent e s' \<and> extends (heap s) (heap s') \<and>
           history s' = history s \<and> historyStep s' = historyStep s - k \<and>
           (synced s \<longrightarrow> synced s')"
  using assms
proof (induction k arbitrary: s)
  case 0
  then show ?case by (simp add: undos_def extends_refl)
next
  case (Suc k)
  have "\<exists>s1. step e b s undoKey = Inr s1 \<and> consistent e s1 \<and> extends (heap s) (heap s1) \<and>
          history s1 = history s \<and> historyStep s1 = historyStep s - 1 \<and> (synced s \<longrightarrow> synced s1)"
  proof (cases "historyStep s = 0")
    case True
    then show ?thesis using undo_at_zero[of s e b] Suc.prems by (simp add: extends_refl)
  next
    case False
    then show ?thesis using undo_ok[OF Suc.prems, of b] by auto
  qed
  then obtain s1 where
    s1: "step e b s undoKey = Inr s1" "consistent e s1" "extends (heap s) (heap s1)"
      "history s1 = history s" "historyStep s1 = historyStep s - 1" "synced s \<longrightarrow> synced s1"
    by blast
  from Suc.IH[OF s1(2)] obtain s' where
    s': "run e s1 (undos b k) = Inr s'" "consistent e s'" "extends (heap s1) (heap s')"
      "history s' = history s1" "historyStep s' = historyStep s1 - k" "synced s1 \<longrightarrow> synced s'"
    by blast
  have "extends (heap s) (heap s')" using s1(3) s'(3) by (rule extends_trans)
  moreover have "run e s (undos b (Suc k)) = Inr s'"
    using s1(1) s'(1) by (simp add: undos_def)
  ultimately show ?case using s1 s' by simp
qed

lemma nth_notin_take:
  assumes "distinct xs" "n \<le> j" "j < length xs"
  shows "xs ! j \<notin> set (take n xs)"
proof
  assume "xs ! j \<in> set (take n xs)"
  then obtain i where i: "i < length (take n xs)" "take n xs ! i = xs ! j"
    by (auto simp: in_set_conv_nth)
  then have "i < n" "i < length xs" "xs ! i = xs ! j" by simp_all
  then have "i = j" using assms(1,3) by (simp add: nth_eq_iff_index_eq)
  with \<open>i < n\<close> assms(2) show False by simp
qed






lemma reachable_consistent:
  assumes "run e (init e) tr = Inr s"
  shows "consistent e s"
proof -
  have "consistent e (init e)" using init_ok by blast
  from run_ok[OF this, of tr] assms show ?thesis by auto
qed

section \<open>The coordinate mapper where nothing is rounded\<close>



section \<open>The brush footprint\<close>

text \<open>
  Claim C10. For every center cell \<open>(centerRow, centerCol)\<close>, when the pen size is 1 the
  cells that the loops of \<^verbatim>\<open>drawPixel\<close> reach are exactly the center cell: the corner test
  is not consulted for a pen size of at most 2, and the only offset is \<open>(0, 0)\<close>. This holds
  whatever \<^verbatim>\<open>isEdge\<close> computes.
\<close>

theorem footprint_pen_size_one:
  "footprint e (b\<lparr>penSize := 1\<rparr>) centerRow centerCol = [(centerRow, centerCol)]"
  by (simp add: footprint_def brushOffsets_def)



section \<open>The ghost brush\<close>

text \<open>
  Claim C9. Drawing the ghost brush writes to the canvas only: the store, the grid, the
  history and its cursor are what they were. It fills no rectangle at all, leaving the
  state as it is, when there is no hover position, when grab mode is on, or when a stroke
  is in progress.
\<close>

theorem drawGhostBrush_frame:
  "heap (drawGhostBrush e b s) = heap s \<and>
   pixels (drawGhostBrush e b s) = pixels s \<and>
   history (drawGhostBrush e b s) = history s \<and>
   historyStep (drawGhostBrush e b s) = historyStep s \<and>
   drawGhostBrush e b (s\<lparr>hoverPos := None\<rparr>) = s\<lparr>hoverPos := None\<rparr> \<and>
   drawGhostBrush e (b\<lparr>isGrab := True\<rparr>) s = s \<and>
   drawGhostBrush e b (s\<lparr>isDrawing := True\<rparr>) = s\<lparr>isDrawing := True\<rparr>"
  by (simp add: drawGhostBrush_def split: option.splits prod.splits)

section \<open>Pointer-up\<close>

text \<open>
  Claim C5. A pointer-up event, in any state and whatever the \<open>isDrawing\<close> flag says,
  cuts the history after the cursor, appends a new entry whose content is the grid as it
  is shown, and moves the cursor one up; the flag is not read, so the step is the same for
  both of its values. In particular a pointer-up with no pointer-down before it records
  the unchanged grid as a new entry.
\<close>

theorem mouseUp_always_commits:
  "\<exists>s'. step e b s MouseUp = Inr s' \<and>
     history s' = take (Suc (historyStep s)) (history s) @ [length (gridHeap (heap s))] \<and>
     historyStep s' = Suc (historyStep s) \<and>
     gridValue (heap s') (last (history s')) = currentGrid s \<and>
     isDrawing s' = False \<and>
     step e b (s\<lparr>isDrawing := d\<rparr>) MouseUp = step e b s MouseUp"
proof -
  let ?S = "heap s"
  let ?g = "length (gridHeap ?S)"
  let ?S1 = "snd (copyGrid ?S (pixels s))"
  let ?s1 = "handleMouseUp s"
  let ?s' = "afterRender s ?s1"
  have s1: "?s1 = s\<lparr>heap := ?S1, isDrawing := False,
               history := take (Suc (historyStep s)) (history s) @ [?g],
               historyStep := Suc (historyStep s)\<rparr>"
    by (simp add: handleMouseUp_def split_beta copyGrid_fst)
  have st: "step e b s MouseUp = Inr ?s'" by (simp add: step_def handle_def)
  have ar: "?s' = restoreFromHistory ?s1" by (simp add: afterRender_def s1)
  have h: "history ?s' = take (Suc (historyStep s)) (history s) @ [?g]"
    and c: "historyStep ?s' = Suc (historyStep s)" and d: "isDrawing ?s' = False"
    unfolding ar using restoreFromHistory_fields[of ?s1] by (simp_all add: s1)
  have g1: "?g < length (gridHeap ?S1)" by (simp add: copyGrid_length)
  have rows: "gridHeap ?S1 ! ?g = [length (rowHeap ?S) ..< length (rowHeap ?S) + length (gridHeap ?S ! pixels s)]"
    using copyGrid_rows[of ?S "pixels s"] by (simp add: copyGrid_fst)
  have bnd: "\<forall>a \<in> set (gridHeap ?S1 ! ?g). a < length (rowHeap ?S1)"
    unfolding rows by (simp add: copyGrid_def Let_def)
  have v1: "gridValue ?S1 ?g = currentGrid s"
    using copyGrid_value[of ?S "pixels s"] by (simp add: copyGrid_fst currentGrid_def)
  have "gridValue (heap ?s') ?g = gridValue ?S1 ?g"
  proof (cases "historyStep ?s1 < length (history ?s1)")
    case True
    then have "heap ?s' = snd (copyGrid ?S1 (history ?s1 ! historyStep ?s1))"
      unfolding ar by (simp add: restoreFromHistory_def split_beta s1)
    then show ?thesis using copyGrid_keeps_value[OF g1 bnd] by simp
  next
    case False
    then have "heap ?s' = ?S1" unfolding ar by (simp add: restoreFromHistory_def s1)
    then show ?thesis by simp
  qed
  with v1 have v: "gridValue (heap ?s') ?g = currentGrid s" by simp
  have hg: "gridValue (heap ?s') (last (history ?s')) = currentGrid s"
    using v h by simp
  have ind: "step e b (s\<lparr>isDrawing := d\<rparr>) MouseUp = step e b s MouseUp"
    by (simp add: step_def handle_def handleMouseUp_def afterRender_def split_beta)
  from st h c hg d ind show ?thesis by simp
qed

section \<open>Stamping near the border\<close>

text \<open>
  Claim C6, as the code has it. A stamp at any position, in particular at one that maps to
  a cell outside the grid, and with any pen size, raises no error in a consistent state.
  The grid keeps its dimensions: a footprint cell outside
  \<open>[0, logicHeight) \<times> [0, logicWidth)\<close> is skipped. Every in-bounds cell that the
  footprint does not cover keeps its colour, and outside grab mode every in-bounds cell
  that it covers takes the brush colour. When no footprint cell is in bounds, as for pen
  size 1 at a position outside the grid, no cell changes.
\<close>

theorem drawPixel_skips_outside_cells:
  assumes cs: "consistent e s"
  shows "\<exists>s'. drawPixel e b row col s = Inr s' \<and>
           length (currentGrid s') = logicHeight e \<and>
           (\<forall>r. r < logicHeight e \<longrightarrow> length (currentGrid s' ! r) = logicWidth e) \<and>
           (\<forall>r c. r < logicHeight e \<longrightarrow> c < logicWidth e \<longrightarrow>
              (int r, int c) \<notin> set (footprint e b row col) \<longrightarrow>
              currentGrid s' ! r ! c = currentGrid s ! r ! c) \<and>
           (\<forall>r c. r < logicHeight e \<longrightarrow> c < logicWidth e \<longrightarrow>
              (int r, int c) \<in> set (footprint e b row col) \<longrightarrow> \<not> isGrab b \<longrightarrow>
              currentGrid s' ! r ! c = Some (fillColor e b)) \<and>
           (list_all (\<lambda>(r, c). \<not> inBounds e r c) (footprint e b row col) \<longrightarrow>
              currentGrid s' = currentGrid s) \<and>
           (penSize b = 1 \<and> \<not> inBounds e row col \<longrightarrow> currentGrid s' = currentGrid s)"
proof -
  from drawPixel_ok[OF cs, of b row col] obtain s' where
    s': "drawPixel e b row col s = Inr s'" "consistent e s'"
    and cells: "\<forall>r c. r < logicHeight e \<longrightarrow> c < logicWidth e \<longrightarrow>
              currentGrid s' ! r ! c =
                (if \<not> isGrab b \<and> (int r, int c) \<in> set (footprint e b row col)
                 then Some (fillColor e b) else currentGrid s ! r ! c)"
    by blast
  have h': "length (currentGrid s') = logicHeight e" using s'(2) by (rule currentGrid_dims)
  have w': "\<And>r. r < logicHeight e \<Longrightarrow> length (currentGrid s' ! r) = logicWidth e"
    using s'(2) by (rule currentGrid_dims)
  have h: "length (currentGrid s) = logicHeight e" using cs by (rule currentGrid_dims)
  have w: "\<And>r. r < logicHeight e \<Longrightarrow> length (currentGrid s ! r) = logicWidth e"
    using cs by (rule currentGrid_dims)
  have frame: "\<forall>r c. r < logicHeight e \<longrightarrow> c < logicWidth e \<longrightarrow>
              (int r, int c) \<notin> set (footprint e b row col) \<longrightarrow>
              currentGrid s' ! r ! c = currentGrid s ! r ! c"
    using cells by simp
  have skip: "currentGrid s' = currentGrid s"
    if out: "list_all (\<lambda>(r, c). \<not> inBounds e r c) (footprint e b row col)"
  proof (rule grid_eqI[OF h' h w' w])
    fix r c assume rc: "r < logicHeight e" "c < logicWidth e"
    then have "inBounds e (int r) (int c)" by (simp add: inBounds_def)
    then have "(int r, int c) \<notin> set (footprint e b row col)"
      using out by (auto simp: list_all_iff)
    then show "currentGrid s' ! r ! c = currentGrid s ! r ! c" using frame rc by simp
  qed
  have one: "currentGrid s' = currentGrid s" if "penSize b = 1 \<and> \<not> inBounds e row col"
    using that skip by (simp add: footprint_single)
  have paint: "\<forall>r c. r < logicHeight e \<longrightarrow> c < logicWidth e \<longrightarrow>
              (int r, int c) \<in> set (footprint e b row col) \<longrightarrow> \<not> isGrab b \<longrightarrow>
              currentGrid s' ! r ! c = Some (fillColor e b)"
    using cells by simp
  from s'(1) h' w' frame paint skip one show ?thesis by blast
qed

text \<open>
  Claim C6 as stated does not hold for every pen size: the footprint extends from the
  pointer's cell towards greater rows and columns, so with pen size 2 the stamp at
  \<open>(-1, -1)\<close> on a \<open>5 \<times> 5\<close> grid covers the in-bounds cell \<open>(0, 0)\<close> and paints it.
\<close>

theorem stamp_at_outside_anchor_paints_inside:
  "\<not> inBounds (plainEnv 5 5) (- 1) (- 1) \<and>
   shownAfter (Inr (init (plainEnv 5 5))) = Inr (replicate 5 (replicate 5 (Some ''transparent''))) \<and>
   shownAfter (drawPixel (plainEnv 5 5) (pen 2) (- 1) (- 1) (init (plainEnv 5 5))) =
     Inr ((replicate 5 (replicate 5 (Some ''transparent'')))
            [0 := (replicate 5 (Some ''transparent''))[0 := Some ''red'']])"
  by code_simp

theorem drawPixel_skips_outside_cells_witness:
  "consistent (plainEnv 5 5) (init (plainEnv 5 5)) \<and>
   penSize (pen 1) = 1 \<and> \<not> inBounds (plainEnv 5 5) (- 1) (- 1) \<and>
   shownAfter (drawPixel (plainEnv 5 5) (pen 1) (- 1) (- 1) (init (plainEnv 5 5))) =
     Inr (currentGrid (init (plainEnv 5 5)))"
proof -
  have c: "consistent (plainEnv 5 5) (init (plainEnv 5 5))" using init_ok by blast
  have p: "penSize (pen 1) = 1 \<and> \<not> inBounds (plainEnv 5 5) (- 1) (- 1)"
    by (simp add: pen_def plainEnv_def inBounds_def)
  from drawPixel_skips_outside_cells[OF c, of "pen 1" "- 1" "- 1"] p
  obtain s' where "drawPixel (plainEnv 5 5) (pen 1) (- 1) (- 1) (init (plainEnv 5 5)) = Inr s'"
    "currentGrid s' = currentGrid (init (plainEnv 5 5))"
    by blast
  with c p show ?thesis by (simp add: shownAfter_def)
qed

section \<open>Undo\<close>

text \<open>
  Claim C8. In a consistent state, Ctrl+Z raises no error and sets the cursor to
  \<open>max(0, cursor - 1)\<close>, leaving the history as it is. When the cursor was above 0 the grid
  is replaced by the content of the history entry at the new cursor; when the cursor was
  already 0 the whole state, the cursor and the grid with it, is unchanged.
\<close>

theorem undo_moves_cursor_and_restores:
  assumes "consistent e s"
  shows "\<exists>s'. step e b s undoKey = Inr s' \<and>
           historyStep s' = nat (max 0 (int (historyStep s) - 1)) \<and>
           history s' = history s \<and>
           (0 < historyStep s \<longrightarrow>
              currentGrid s' = historyGrid s (historyStep s') \<and>
              currentGrid s' = historyGrid s' (historyStep s')) \<and>
           (historyStep s = 0 \<longrightarrow> s' = s)"
proof (cases "historyStep s = 0")
  case True
  then show ?thesis using undo_at_zero[of s e b] by simp
next
  case False
  then have pos: "0 < historyStep s" by simp
  from undo_ok[OF assms pos, of b] obtain s' where
    s': "step e b s undoKey = Inr s'" "history s' = history s"
      "historyStep s' = historyStep s - 1"
      "currentGrid s' = historyGrid s (historyStep s - 1)" "synced s'"
    by blast
  have "historyStep s' = nat (max 0 (int (historyStep s) - 1))" using s'(3) pos by simp
  with s' pos show ?thesis by (simp add: synced_def)
qed

theorem undo_moves_cursor_and_restores_witness:
  "consistent (plainEnv 2 2) (init (plainEnv 2 2)) \<and>
   historyStep (init (plainEnv 2 2)) = 0 \<and>
   step (plainEnv 2 2) (pen 1) (init (plainEnv 2 2)) undoKey = Inr (init (plainEnv 2 2)) \<and>
   consistent (plainEnv 2 2) (afterRender (init (plainEnv 2 2)) (handleMouseUp (init (plainEnv 2 2)))) \<and>
   historyStep (afterRender (init (plainEnv 2 2)) (handleMouseUp (init (plainEnv 2 2)))) = 1 \<and>
   (\<exists>s'. step (plainEnv 2 2) (pen 1)
           (afterRender (init (plainEnv 2 2)) (handleMouseUp (init (plainEnv 2 2)))) undoKey = Inr s' \<and>
         historyStep s' = 0 \<and>
         currentGrid s' =
           historyGrid (afterRender (init (plainEnv 2 2)) (handleMouseUp (init (plainEnv 2 2)))) 0)"
proof -
  let ?e = "plainEnv 2 2"
  let ?s1 = "afterRender (init ?e) (handleMouseUp (init ?e))"
  have c0: "consistent ?e (init ?e)" using init_ok by blast
  have h0: "historyStep (init ?e) = 0" by code_simp
  have c1: "consistent ?e ?s1" by code_simp
  have h1: "historyStep ?s1 = 1" by code_simp
  from undo_moves_cursor_and_restores[OF c0, of "pen 1"] h0
  have a: "step ?e (pen 1) (init ?e) undoKey = Inr (init ?e)" by auto
  from undo_moves_cursor_and_restores[OF c1, of "pen 1"] h1
  have b: "\<exists>s'. step ?e (pen 1) ?s1 undoKey = Inr s' \<and> historyStep s' = 0 \<and>
             currentGrid s' = historyGrid ?s1 0"
    by auto
  from c0 h0 a c1 h1 b show ?thesis by blast
qed

section \<open>Strokes, commits and the history\<close>

text \<open>
  Claim C2, as the code has it. Take a consistent state whose grid \<open>G\<close> is the history
  entry at the cursor, as it is after mounting, after every commit and after every undo
  that starts from such a state. After a completed stroke from there (pointer-down, any
  pointer-moves, pointer-up) and one Ctrl+Z, no error has been raised, the cursor is where
  it was and the grid is \<open>G\<close> again, cell for cell.
\<close>

theorem stroke_then_undo_restores:
  assumes cs: "consistent e s" and sy: "synced s"
  shows "\<exists>s'. run e s (stroke b row col ms @ [(b', undoKey)]) = Inr s' \<and>
           currentGrid s' = currentGrid s \<and> historyStep s' = historyStep s"
proof -
  let ?c = "historyStep s"
  from stroke_ok[OF cs, of b row col ms] obtain s1 g where
    s1: "run e s (stroke b row col ms) = Inr s1" "consistent e s1" "extends (heap s) (heap s1)"
      "history s1 = take (Suc ?c) (history s) @ [g]"
      "historyStep s1 = Suc ?c"
    by blast
  have pos: "0 < historyStep s1" using s1(5) by simp
  from undo_ok[OF s1(2) pos, of b'] obtain s2 where
    s2: "step e b' s1 undoKey = Inr s2" "historyStep s2 = historyStep s1 - 1"
      "currentGrid s2 = historyGrid s1 (historyStep s1 - 1)"
    by blast
  have wf: "wfStore e (heap s)" and c: "?c < length (history s)"
    and hs: "\<forall>g \<in> set (history s). g < length (gridHeap (heap s))"
    using cs by (simp_all add: consistent_def list_all_iff)
  have v: "history s ! ?c < length (gridHeap (heap s))" using c hs by simp
  have n: "history s1 ! ?c = history s ! ?c" using s1(4) c by (simp add: nth_append)
  have "currentGrid s2 = gridValue (heap s1) (history s ! ?c)"
    using s2(3) s1(5) n by (simp add: historyGrid_def)
  also have "\<dots> = gridValue (heap s) (history s ! ?c)"
    using s1(3) wf v by (rule extends_gridValue)
  also have "\<dots> = currentGrid s" using sy by (simp add: synced_def historyGrid_def)
  finally have g: "currentGrid s2 = currentGrid s" .
  have "run e s (stroke b row col ms @ [(b', undoKey)]) = Inr s2"
    using s1(1) s2(1) by (simp add: run_append)
  with g s2(2) s1(5) show ?thesis by simp
qed

text \<open>
  Claim C2 as stated, for every grid state, does not hold. A stroke that never received
  its pointer-up (the button was released outside the canvas) leaves its paint in the grid
  and nothing in the history. For the next stroke this painted grid is the grid before
  the stroke, but the undo after its commit brings back the older history entry: on a
  \<open>2 \<times> 2\<close> grid the cell \<open>(0, 0)\<close> painted by the unfinished stroke is transparent again.
\<close>

theorem stroke_after_unfinished_stroke:
  "shownAfter (run (plainEnv 2 2) (init (plainEnv 2 2)) [(pen 1, MouseDown 0 0)]) =
     Inr [[Some ''red'', Some ''transparent''], [Some ''transparent'', Some ''transparent'']] \<and>
   shownAfter (run (plainEnv 2 2) (init (plainEnv 2 2))
       ((pen 1, MouseDown 0 0) # stroke (pen 1) 1 1 [] @ [(pen 1, undoKey)])) =
     Inr [[Some ''transparent'', Some ''transparent''], [Some ''transparent'', Some ''transparent'']]"
  by code_simp

theorem stroke_then_undo_restores_witness:
  "consistent (plainEnv 2 2) (init (plainEnv 2 2)) \<and> synced (init (plainEnv 2 2)) \<and>
   shownAfter (run (plainEnv 2 2) (init (plainEnv 2 2))
       (stroke (pen 1) 0 0 [(0, 1)] @ [(pen 1, undoKey)])) =
     Inr (currentGrid (init (plainEnv 2 2)))"
proof -
  have c: "consistent (plainEnv 2 2) (init (plainEnv 2 2))"
    and y: "synced (init (plainEnv 2 2))" using init_ok by blast+
  from stroke_then_undo_restores[OF c y, of "pen 1" 0 0 "[(0, 1)]" "pen 1"]
  obtain s' where "run (plainEnv 2 2) (init (plainEnv 2 2))
       (stroke (pen 1) 0 0 [(0, 1)] @ [(pen 1, undoKey)]) = Inr s'"
    "currentGrid s' = currentGrid (init (plainEnv 2 2))" by blast
  with c y show ?thesis by (simp add: shownAfter_def)
qed

text \<open>
  Claim C3. In a consistent state with cursor \<open>c\<close>, a commit (pointer-up) leaves the history
  entries \<open>0 .. c\<close> followed by one new entry. The new entry is a deep copy of the current
  grid: it has the grid's content, it is an array of its own and shares no row array with
  the grid. The cursor is the last index. Consequently, after \<open>k\<close> undos, a stroke with its
  commit, and any number \<open>m\<close> of further undos, the history is the entries up to the cursor
  the \<open>k\<close> undos reached followed by the stroke's entry, the grid shown is the entry at the
  cursor, and no entry that was at a greater index is in the history any more.
\<close>

theorem commit_truncates_and_prunes:
  assumes cs: "consistent e s"
  shows "(\<exists>s1. step e b s MouseUp = Inr s1 \<and>
            history s1 = take (Suc (historyStep s)) (history s) @ [last (history s1)] \<and>
            gridValue (heap s1) (last (history s1)) = currentGrid s \<and>
            last (history s1) \<notin> set (history s) \<and> last (history s1) \<noteq> pixels s \<and>
            set (gridHeap (heap s1) ! last (history s1)) \<inter> set (gridHeap (heap s1) ! pixels s) = {} \<and>
            historyStep s1 = length (history s1) - 1) \<and>
         (\<exists>s3. run e s (undos b k @ stroke b row col ms @ undos b m) = Inr s3 \<and>
            history s3 = take (Suc (historyStep s - k)) (history s) @ [last (history s3)] \<and>
            historyStep s3 < length (history s3) \<and> synced s3 \<and>
            (\<forall>j. historyStep s - k < j \<longrightarrow> j < length (history s) \<longrightarrow>
                 history s ! j \<notin> set (history s3)))"
proof
  let ?c = "historyStep s"
  let ?g = "length (gridHeap (heap s))"
  have p: "pixels s < ?g" and c: "?c < length (history s)"
    and hs: "\<forall>g \<in> set (history s). g < ?g" and d: "distinct (history s)"
    using cs by (simp_all add: consistent_def list_all_iff)
  from mouseUp_ok[OF cs, of b] obtain s1 where
    s1: "step e b s MouseUp = Inr s1" "consistent e s1" "extends (heap s) (heap s1)"
      "history s1 = take (Suc ?c) (history s) @ [?g]" "historyStep s1 = Suc ?c"
      "currentGrid s1 = currentGrid s" "synced s1"
    by blast
  have l: "last (history s1) = ?g" using s1(4) by simp
  have wf1: "wfStore e (heap s1)" and h1: "\<forall>g \<in> set (history s1). g < length (gridHeap (heap s1))"
    using s1(2) by (simp_all add: consistent_def list_all_iff)
  have g1: "?g < length (gridHeap (heap s1))" using h1 s1(4) by simp
  have p1: "pixels s < length (gridHeap (heap s1))" using p g1 by simp
  have "gridValue (heap s1) ?g = historyGrid s1 (historyStep s1)"
    using s1(4,5) c by (simp add: historyGrid_def nth_append)
  also have "\<dots> = currentGrid s" using s1(6,7) by (simp add: synced_def)
  finally have v: "gridValue (heap s1) ?g = currentGrid s" .
  have fresh: "?g \<notin> set (history s)" using hs by auto
  have ne: "?g \<noteq> pixels s" using p by simp
  have dj: "set (gridHeap (heap s1) ! ?g) \<inter> set (gridHeap (heap s1) ! pixels s) = {}"
    using wf1 g1 p1 ne by (rule wfStore_disjoint_rows)
  have len: "historyStep s1 = length (history s1) - 1" using s1(4,5) c by simp
  have A: "history s1 = take (Suc (historyStep s)) (history s) @ [last (history s1)]"
    using s1(4) by simp
  have B: "gridValue (heap s1) (last (history s1)) = currentGrid s"
    and C: "last (history s1) \<notin> set (history s)" and D: "last (history s1) \<noteq> pixels s"
    and E: "set (gridHeap (heap s1) ! last (history s1)) \<inter> set (gridHeap (heap s1) ! pixels s) = {}"
    using v fresh ne dj unfolding l by blast+
  from s1(1) A B C D E len
  show "\<exists>s1. step e b s MouseUp = Inr s1 \<and>
            history s1 = take (Suc (historyStep s)) (history s) @ [last (history s1)] \<and>
            gridValue (heap s1) (last (history s1)) = currentGrid s \<and>
            last (history s1) \<notin> set (history s) \<and> last (history s1) \<noteq> pixels s \<and>
            set (gridHeap (heap s1) ! last (history s1)) \<inter> set (gridHeap (heap s1) ! pixels s) = {} \<and>
            historyStep s1 = length (history s1) - 1"
    by blast
next
  let ?c = "historyStep s - k"
  have hs: "\<forall>g \<in> set (history s). g < length (gridHeap (heap s))" and d: "distinct (history s)"
    using cs by (simp_all add: consistent_def list_all_iff)
  from undos_ok[OF cs, of b k] obtain sa where
    sa: "run e s (undos b k) = Inr sa" "consistent e sa" "extends (heap s) (heap sa)"
      "history sa = history s" "historyStep sa = ?c"
    by blast
  from stroke_ok[OF sa(2), of b row col ms] obtain sb g where
    sb: "run e sa (stroke b row col ms) = Inr sb" "consistent e sb"
      "history sb = take (Suc (historyStep sa)) (history sa) @ [g]"
      "length (gridHeap (heap sa)) \<le> g" "synced sb"
    by blast
  from undos_ok[OF sb(2), of b m] sb(5) obtain sc where
    sc: "run e sb (undos b m) = Inr sc" "consistent e sc" "history sc = history sb" "synced sc"
    by blast
  have r: "run e s (undos b k @ stroke b row col ms @ undos b m) = Inr sc"
    using sa(1) sb(1) sc(1) by (simp add: run_append)
  have hg: "history sc = take (Suc ?c) (history s) @ [g]"
    using sb(3) sa(4,5) sc(3) by simp
  then have lg: "last (history sc) = g" by simp
  have h: "history sc = take (Suc ?c) (history s) @ [last (history sc)]"
    unfolding lg by (rule hg)
  have cur: "historyStep sc < length (history sc)" using sc(2) by (simp add: consistent_def)
  have le: "length (gridHeap (heap s)) \<le> g"
    using extends_length[OF sa(3)] sb(4) by simp
  have un: "\<forall>j. ?c < j \<longrightarrow> j < length (history s) \<longrightarrow> history s ! j \<notin> set (history sc)"
  proof (intro allI impI)
    fix j assume j: "?c < j" "j < length (history s)"
    then have 1: "history s ! j \<notin> set (take (Suc ?c) (history s))"
      using d by (simp add: nth_notin_take)
    have "history s ! j < length (gridHeap (heap s))" using hs j(2) by simp
    then have 2: "history s ! j \<noteq> g" using le by simp
    from 1 2 show "history s ! j \<notin> set (history sc)" by (simp add: hg)
  qed
  from r h cur sc(4) un show "\<exists>s3. run e s (undos b k @ stroke b row col ms @ undos b m) = Inr s3 \<and>
            history s3 = take (Suc (historyStep s - k)) (history s) @ [last (history s3)] \<and>
            historyStep s3 < length (history s3) \<and> synced s3 \<and>
            (\<forall>j. historyStep s - k < j \<longrightarrow> j < length (history s) \<longrightarrow>
                 history s ! j \<notin> set (history s3))"
    by blast
qed

theorem commit_truncates_and_prunes_witness:
  "consistent (plainEnv 2 2) (afterRender (init (plainEnv 2 2)) (handleMouseUp (init (plainEnv 2 2)))) \<and>
   historyStep (afterRender (init (plainEnv 2 2)) (handleMouseUp (init (plainEnv 2 2)))) = 1 \<and>
   length (history (afterRender (init (plainEnv 2 2)) (handleMouseUp (init (plainEnv 2 2))))) = 2 \<and>
   (\<exists>s3. run (plainEnv 2 2) (afterRender (init (plainEnv 2 2)) (handleMouseUp (init (plainEnv 2 2))))
            (undos (pen 1) 1 @ stroke (pen 1) 0 0 [] @ undos (pen 1) 3) = Inr s3 \<and>
         historyStep s3 < length (history s3) \<and>
         history (afterRender (init (plainEnv 2 2)) (handleMouseUp (init (plainEnv 2 2)))) ! 1
           \<notin> set (history s3))"
proof -
  let ?e = "plainEnv 2 2"
  let ?s = "afterRender (init ?e) (handleMouseUp (init ?e))"
  have c: "consistent ?e ?s" by code_simp
  have h: "historyStep ?s = 1" by code_simp
  have l: "length (history ?s) = 2" by code_simp
  from commit_truncates_and_prunes[OF c, of "pen 1" 1 0 0 "[]" 3]
  obtain s3 where s3: "run ?e ?s (undos (pen 1) 1 @ stroke (pen 1) 0 0 [] @ undos (pen 1) 3) = Inr s3"
    "historyStep s3 < length (history s3)"
    "\<forall>j. historyStep ?s - 1 < j \<longrightarrow> j < length (history ?s) \<longrightarrow> history ?s ! j \<notin> set (history s3)"
    by blast
  from s3(3) h l have "history ?s ! 1 \<notin> set (history s3)" by simp
  with c h l s3(1,2) show ?thesis by blast
qed

text \<open>
  Claim C4, as the code has it. Every sequence of events after mounting runs without an
  error, and the state \<open>s\<close> it reaches has its cursor within the history and no aliasing
  between the grid and the history entries. Right after mounting the grid is the entry
  at the cursor; so it is after a commit from \<open>s\<close>; and so it is after an undo from \<open>s\<close>
  when the undo moves the cursor or the grid was the entry at the cursor before.
\<close>

theorem settle_points:
  "\<exists>s. run e (init e) tr = Inr s \<and> historyStep s < length (history s) \<and> noAlias s \<and>
     (tr = [] \<longrightarrow> synced s) \<and>
     (\<exists>s'. step e b s MouseUp = Inr s' \<and> synced s' \<and>
            historyStep s' < length (history s') \<and> noAlias s') \<and>
     (\<exists>s'. step e b s undoKey = Inr s' \<and>
            historyStep s' < length (history s') \<and> noAlias s' \<and>
            (0 < historyStep s \<or> synced s \<longrightarrow> synced s'))"
proof -
  have c0: "consistent e (init e)" and y0: "synced (init e)" using init_ok by blast+
  from run_ok[OF c0, of tr] obtain s where
    s: "run e (init e) tr = Inr s" "consistent e s" by blast
  have cur: "historyStep s < length (history s)" using s(2) by (simp add: consistent_def)
  have na: "noAlias s" using s(2) by (rule consistent_noAlias)
  have ini: "tr = [] \<longrightarrow> synced s" using s(1) y0 by auto
  from mouseUp_ok[OF s(2), of b] obtain s1 where
    s1: "step e b s MouseUp = Inr s1" "consistent e s1" "synced s1" by blast
  have up: "\<exists>s'. step e b s MouseUp = Inr s' \<and> synced s' \<and>
            historyStep s' < length (history s') \<and> noAlias s'"
    using s1 consistent_noAlias[OF s1(2)] by (auto simp: consistent_def)
  have un: "\<exists>s'. step e b s undoKey = Inr s' \<and>
            historyStep s' < length (history s') \<and> noAlias s' \<and>
            (0 < historyStep s \<or> synced s \<longrightarrow> synced s')"
  proof (cases "historyStep s = 0")
    case True
    then have "step e b s undoKey = Inr s" by (rule undo_at_zero)
    with cur na True show ?thesis by simp
  next
    case False
    then have pos: "0 < historyStep s" by simp
    from undo_ok[OF s(2) pos, of b] obtain s2 where
      s2: "step e b s undoKey = Inr s2" "consistent e s2" "synced s2" by blast
    then show ?thesis using consistent_noAlias[OF s2(2)] by (auto simp: consistent_def)
  qed
  from s(1) cur na ini up un show ?thesis by blast
qed

text \<open>
  Claim C4 as stated, for every undo, does not hold: at cursor 0 an undo changes nothing,
  so when Ctrl+Z is pressed at cursor 0 while a stroke has painted and not yet committed,
  the grid is not the history entry at the cursor afterwards.
\<close>

theorem undo_during_stroke_at_first_entry:
  "shownAfter (run (plainEnv 2 2) (init (plainEnv 2 2)) [(pen 1, MouseDown 0 0), (pen 1, undoKey)]) =
     Inr [[Some ''red'', Some ''transparent''], [Some ''transparent'', Some ''transparent'']] \<and>
   atCursorAfter (run (plainEnv 2 2) (init (plainEnv 2 2)) [(pen 1, MouseDown 0 0), (pen 1, undoKey)]) =
     Inr [[Some ''transparent'', Some ''transparent''], [Some ''transparent'', Some ''transparent'']]"
  by code_simp

theorem settle_points_witness:
  "\<exists>s. run (plainEnv 2 2) (init (plainEnv 2 2)) [] = Inr s \<and>
     historyStep s < length (history s) \<and> noAlias s \<and> synced s \<and>
     (\<exists>s'. step (plainEnv 2 2) (pen 1) s MouseUp = Inr s' \<and> synced s') \<and>
     (\<exists>s'. step (plainEnv 2 2) (pen 1) s undoKey = Inr s' \<and> synced s')"
proof -
  from settle_points[of "plainEnv 2 2" "[]" "pen 1"] obtain s where
    s: "run (plainEnv 2 2) (init (plainEnv 2 2)) [] = Inr s"
      "historyStep s < length (history s)" "noAlias s" "synced s"
      "\<exists>s'. step (plainEnv 2 2) (pen 1) s MouseUp = Inr s' \<and> synced s'"
      "\<exists>s'. step (plainEnv 2 2) (pen 1) s undoKey = Inr s' \<and>
            historyStep s' < length (history s') \<and> noAlias s' \<and>
            (0 < historyStep s \<or> synced s \<longrightarrow> synced s')"
    by blast
  from s(4,6) have "\<exists>s'. step (plainEnv 2 2) (pen 1) s undoKey = Inr s' \<and> synced s'" by blast
  with s(1-5) show ?thesis by blast
qed

section \<open>The coordinate mapping\<close>




section \<open>A worked scenario\<close>

text \<open>
  A \<open>3 \<times> 3\<close> grid, pen size 1: a stroke over the cells \<open>(0, 0)\<close>, \<open>(0, 1)\<close>, \<open>(0, 2)\<close> colours
  exactly these three cells and leaves a history of two entries with the cursor at 1; one
  undo brings back the transparent grid and the cursor to 0.
\<close>

lemma scenario_stroke_over_three_cells:
  "run (plainEnv 3 3) (init (plainEnv 3 3)) (stroke (pen 1) 0 0 [(0, 1), (0, 2)]) = Inr s \<Longrightarrow>
     currentGrid s =
       [[Some ''red'', Some ''red'', Some ''red''],
        [Some ''transparent'', Some ''transparent'', Some ''transparent''],
        [Some ''transparent'', Some ''transparent'', Some ''transparent'']] \<and>
     length (history s) = 2 \<and> historyStep s = 1"
proof -
  assume r: "run (plainEnv 3 3) (init (plainEnv 3 3)) (stroke (pen 1) 0 0 [(0, 1), (0, 2)]) = Inr s"
  have g: "shownAfter (run (plainEnv 3 3) (init (plainEnv 3 3)) (stroke (pen 1) 0 0 [(0, 1), (0, 2)])) =
      Inr [[Some ''red'', Some ''red'', Some ''red''],
        [Some ''transparent'', Some ''transparent'', Some ''transparent''],
        [Some ''transparent'', Some ''transparent'', Some ''transparent'']]"
    by code_simp
  have h: "map_sum id (\<lambda>s. (length (history s), historyStep s))
             (run (plainEnv 3 3) (init (plainEnv 3 3)) (stroke (pen 1) 0 0 [(0, 1), (0, 2)])) = Inr (2, 1)"
    by code_simp
  from r g h show ?thesis by (simp add: shownAfter_def)
qed

lemma scenario_undo_after_stroke:
  "shownAfter (run (plainEnv 3 3) (init (plainEnv 3 3))
      (stroke (pen 1) 0 0 [(0, 1), (0, 2)] @ undos (pen 1) 1)) =
     Inr (replicate 3 (replicate 3 (Some ''transparent'')))"
  by code_simp

end
